theory Spec2Isabelle
  imports Main "HOL-Library.Multiset" "HOL-Library.Char_ord" "HOL-Library.List_Lexorder"
begin

section \<open>Python values used by the loaders\<close>

text \<open>
  The exceptions that the modelled code can raise. \<open>KeyError\<close> comes from indexing a
  dict with a missing key, \<open>UnboundLocalError\<close> from reading a local variable that no
  executed branch has assigned, \<open>ValueError\<close> from the explicit \<^verbatim>\<open>raise ValueError\<close>
  statements.
\<close>

datatype py_error = KeyError | UnboundLocalError | ValueError

text \<open>
  A dict is an association list in insertion order. Storing under a key that is already
  there replaces the value and keeps the key's position; a new key goes to the end.
\<close>

type_synonym ('k, 'v) dict = "('k \<times> 'v) list"

definition dict_keys :: "('k, 'v) dict \<Rightarrow> 'k list" where
  "dict_keys d = map fst d"

definition dict_getitem :: "('k, 'v) dict \<Rightarrow> 'k \<Rightarrow> py_error + 'v" where
  "dict_getitem d k = (case map_of d k of None \<Rightarrow> Inl KeyError | Some v \<Rightarrow> Inr v)"

fun dict_setitem :: "('k, 'v) dict \<Rightarrow> 'k \<Rightarrow> 'v \<Rightarrow> ('k, 'v) dict" where
  "dict_setitem [] k v = [(k, v)]"
| "dict_setitem ((k', v') # d) k v =
     (if k' = k then (k', v) # d else (k', v') # dict_setitem d k v)"

definition dict_update :: "('k, 'v) dict \<Rightarrow> ('k, 'v) dict \<Rightarrow> ('k, 'v) dict" where
  "dict_update d e = fold (\<lambda>(k, v) d'. dict_setitem d' k v) e d"

text \<open>The comprehension \<^verbatim>\<open>{i: d[i] for i in ids}\<close>; it raises at the first missing key.\<close>

fun dict_comp :: "('k, 'v) dict \<Rightarrow> 'k list \<Rightarrow> py_error + ('k, 'v) dict" where
  "dict_comp d [] = Inr []"
| "dict_comp d (i # ids) =
     (case dict_getitem d i of
        Inl e \<Rightarrow> Inl e
      | Inr v \<Rightarrow> (case dict_comp d ids of
                   Inl e \<Rightarrow> Inl e
                 | Inr r \<Rightarrow> Inr (dict_update [(i, v)] r)))"

text \<open>
  The slice \<^verbatim>\<open>xs[:n]\<close>: everything for \<^verbatim>\<open>None\<close>, the first \<open>n\<close> elements for
  \<open>n \<ge> 0\<close>, and all but the last \<open>-n\<close> elements for a negative \<open>n\<close>.
\<close>

definition slice_to :: "'a list \<Rightarrow> int option \<Rightarrow> 'a list" where
  "slice_to xs n =
     (case n of
        None \<Rightarrow> xs
      | Some k \<Rightarrow> if 0 \<le> k then take (nat k) xs else take (nat (int (length xs) + k)) xs)"

text \<open>Truth value of an optional integer: \<^verbatim>\<open>None\<close> and \<open>0\<close> are false.\<close>

definition truthy :: "int option \<Rightarrow> bool" where
  "truthy n = (case n of None \<Rightarrow> False | Some k \<Rightarrow> k \<noteq> 0)"

text \<open>\<^verbatim>\<open>if n: n -= k\<close>\<close>

definition decrement_if_truthy :: "int option \<Rightarrow> nat \<Rightarrow> int option" where
  "decrement_if_truthy n k = (if truthy n then map_option (\<lambda>m. m - int k) n else n)"

text \<open>
  \<^verbatim>\<open>os.path.join(a, b)\<close> and \<^verbatim>\<open>os.path.splitext(p)\<close> of the POSIX path module. The
  extension starts at the last dot of the last path component; leading dots of that
  component do not start an extension.
\<close>

definition path_join :: "string \<Rightarrow> string \<Rightarrow> string" where
  "path_join a b =
     (if b \<noteq> [] \<and> hd b = CHR ''/'' then b
      else if a = [] \<or> last a = CHR ''/'' then a @ b
      else a @ ''/'' @ b)"

definition splitext :: "string \<Rightarrow> string \<times> string" where
  "splitext p =
     (let after_dot = rev (takeWhile (\<lambda>c. c \<noteq> CHR ''.'') (rev p));
          before_dot = rev (drop 1 (dropWhile (\<lambda>c. c \<noteq> CHR ''.'') (rev p)));
          filename = rev (takeWhile (\<lambda>c. c \<noteq> CHR ''/'') (rev before_dot))
      in if CHR ''.'' \<in> set p \<and> CHR ''/'' \<notin> set after_dot \<and> (\<exists>c \<in> set filename. c \<noteq> CHR ''.'')
         then (before_dot, CHR ''.'' # after_dot)
         else (p, []))"

section \<open>The runtime the loaders run in\<close>

text \<open>
  What the code takes from its surroundings is a parameter of the model:
  \<^item> a Python set is the list of its members in the order in which the interpreter
    iterates over it (\<open>pyset\<close>), so \<^verbatim>\<open>list(S)\<close> is \<open>S\<close> itself. The order is the
    interpreter's business (for strings it follows their hashes), so building a set from a
    list, \<^verbatim>\<open>set(xs)\<close>, intersecting two sets, \<^verbatim>\<open>a.intersection(b)\<close>, and subtracting one
    from another, \<^verbatim>\<open>a - b\<close>, are \<open>set_of_list\<close>, \<open>set_intersection\<close> and
    \<open>set_difference\<close> of the runtime;
  \<^item> \<open>random_seed\<close> and \<open>random_shuffle\<close> are \<^verbatim>\<open>random.seed\<close> and
    \<^verbatim>\<open>random.shuffle\<close> on the generator state \<open>'r\<close> of the \<^verbatim>\<open>random\<close> module;
  \<^item> \<open>ydl_download url path w\<close> is \<^verbatim>\<open>YoutubeDL.download\<close> acting on the outside world
    \<open>'w\<close>: it returns \<open>None\<close> when the call completes and \<open>Some e\<close> when it raises \<open>e\<close>.
\<close>

type_synonym pyset = "string list"

record ('w, 'r, 'x) runtime =
  set_of_list :: "string list \<Rightarrow> pyset"
  set_intersection :: "pyset \<Rightarrow> pyset \<Rightarrow> pyset"
  set_difference :: "pyset \<Rightarrow> pyset \<Rightarrow> pyset"
  random_seed :: "int \<Rightarrow> 'r"
  random_shuffle :: "string list \<Rightarrow> 'r \<Rightarrow> string list \<times> 'r"
  ydl_download :: "string \<Rightarrow> string \<Rightarrow> 'w \<Rightarrow> 'x option \<times> 'w"

text \<open>
  The state the calls act on: the outside world, the generator of the \<^verbatim>\<open>random\<close>
  module, and a log with one entry for every call of \<^verbatim>\<open>_do_download\<close> (the sample id it
  was made for and whether it succeeded). The log is not a variable of the program; it
  records the calls so that properties of them can be stated.
\<close>

record ('w, 'r) env =
  world :: 'w
  rng :: 'r
  fetch_log :: "(string \<times> bool) list"

text \<open>
  A runtime is well behaved when its sets hold each member once, the set operations
  give the members they should, and shuffling gives a permutation.
\<close>

definition runtime_ok :: "('w, 'r, 'x) runtime \<Rightarrow> bool" where
  "runtime_ok rt \<longleftrightarrow>
     (\<forall>xs. distinct (set_of_list rt xs) \<and> set (set_of_list rt xs) = set xs) \<and>
     (\<forall>a b. distinct (set_intersection rt a b) \<and>
            set (set_intersection rt a b) = set a \<inter> set b) \<and>
     (\<forall>a b. distinct (set_difference rt a b) \<and>
            set (set_difference rt a b) = set a - set b) \<and>
     (\<forall>xs r. mset (fst (random_shuffle rt xs r)) = mset xs)"

definition always_fails :: "('w, 'r, 'x) runtime \<Rightarrow> bool" where
  "always_fails rt \<longleftrightarrow> (\<forall>u p w. fst (ydl_download rt u p w) \<noteq> None)"

text \<open>\<^verbatim>\<open>if shuffle: random.shuffle(xs)\<close>\<close>

definition shuffle_if ::
  "('w, 'r, 'x) runtime \<Rightarrow> bool \<Rightarrow> string list \<Rightarrow> ('w, 'r) env \<Rightarrow> string list \<times> ('w, 'r) env" where
  "shuffle_if rt shuffle xs s =
     (if shuffle then (case random_shuffle rt xs (rng s) of (ys, r) \<Rightarrow> (ys, s\<lparr>rng := r\<rparr>))
      else (xs, s))"

section \<open>ActivityNet: the annotation records\<close>

text \<open>
  An entry of \<^verbatim>\<open>raw_annotations["database"]\<close>, with the keys that the modelled functions
  read: \<^verbatim>\<open>"subset"\<close>, \<^verbatim>\<open>"url"\<close> and the \<^verbatim>\<open>"label"\<close> of each of its \<^verbatim>\<open>"annotations"\<close>.
\<close>

record annotation =
  label :: string

record annot_info =
  subset_name :: string
  url :: string
  annotations :: "annotation list"

record raw_annotations =
  database :: "(string, annot_info) dict"

definition SPLIT_MAP :: "(string, string) dict" where
  "SPLIT_MAP = [(''training'', ''train''), (''testing'', ''test''), (''validation'', ''validation'')]"

section \<open>ActivityNet: ids that are already downloaded\<close>

text \<open>
  \<^verbatim>\<open>_get_downloaded_sample_ids\<close>. The directory is the list of its file names in the
  order \<^verbatim>\<open>os.listdir\<close> gives them; the function returns the ids and the directory as
  \<^verbatim>\<open>os.remove\<close> has left it.
\<close>

fun get_downloaded_sample_ids_loop ::
  "string list \<Rightarrow> string list \<Rightarrow> string list \<Rightarrow> string list \<times> string list" where
  "get_downloaded_sample_ids_loop [] video_ids dir = (video_ids, dir)"
| "get_downloaded_sample_ids_loop (vfn # video_filenames) video_ids dir =
     (case splitext vfn of
        (video_id, ext) \<Rightarrow>
          if ext = ''.part''
          then get_downloaded_sample_ids_loop video_filenames video_ids (removeAll vfn dir)
          else get_downloaded_sample_ids_loop video_filenames (video_ids @ [video_id]) dir)"

definition get_downloaded_sample_ids :: "string list \<Rightarrow> string list \<times> string list" where
  "get_downloaded_sample_ids videos_dir =
     (let video_filenames = videos_dir;
          video_ids = []
      in get_downloaded_sample_ids_loop video_filenames video_ids videos_dir)"

section \<open>ActivityNet: samples that match the requested classes\<close>

text \<open>
  \<^verbatim>\<open>_get_matching_samples\<close>; the result is \<open>(any_class_match, all_class_match)\<close>. The
  sets of classes and of labels are only tested (subset, common member), never iterated
  over, so they are sets of HOL.
\<close>

fun get_matching_samples_loop ::
  "string \<Rightarrow> string set \<Rightarrow> (string, annot_info) dict \<Rightarrow>
   (string, annot_info) dict \<Rightarrow> (string, annot_info) dict \<Rightarrow>
   (string, annot_info) dict \<times> (string, annot_info) dict" where
  "get_matching_samples_loop activitynet_split class_set [] any_class_match all_class_match =
     (any_class_match, all_class_match)"
| "get_matching_samples_loop activitynet_split class_set ((sample_id, annot_info) # items)
       any_class_match all_class_match =
     (if activitynet_split \<noteq> subset_name annot_info
      then get_matching_samples_loop activitynet_split class_set items
             any_class_match all_class_match
      else let annot_labels = set (map label (annotations annot_info))
           in if class_set \<subseteq> annot_labels
              then get_matching_samples_loop activitynet_split class_set items
                     any_class_match (dict_setitem all_class_match sample_id annot_info)
              else if class_set \<inter> annot_labels \<noteq> {}
              then get_matching_samples_loop activitynet_split class_set items
                     (dict_setitem any_class_match sample_id annot_info) all_class_match
              else get_matching_samples_loop activitynet_split class_set items
                     any_class_match all_class_match)"

definition get_matching_samples ::
  "raw_annotations \<Rightarrow> string list \<Rightarrow> string \<Rightarrow>
   py_error + (string, annot_info) dict \<times> (string, annot_info) dict" where
  "get_matching_samples raw classes split =
     (case dict_getitem SPLIT_MAP split of
        Inl e \<Rightarrow> Inl e
      | Inr activitynet_split \<Rightarrow>
          Inr (get_matching_samples_loop activitynet_split (set classes) (database raw) [] []))"

section \<open>ActivityNet: downloading\<close>

text \<open>\<^verbatim>\<open>_do_download\<close>: any exception of the download becomes \<open>(False, e)\<close>.\<close>

definition do_download ::
  "('w, 'r, 'x) runtime \<Rightarrow> string \<Rightarrow> string \<Rightarrow> ('w, 'r) env \<Rightarrow>
   (bool \<times> 'x option) \<times> ('w, 'r) env" where
  "do_download rt url_arg output_path s =
     (case ydl_download rt url_arg output_path (world s) of
        (None, w) \<Rightarrow> ((True, None), s\<lparr>world := w\<rparr>)
      | (Some e, w) \<Rightarrow> ((False, Some e), s\<lparr>world := w\<rparr>))"

text \<open>
  \<^verbatim>\<open>_attempt_to_download\<close>: the loop over \<open>ids\<close> with the list \<open>downloaded\<close> built so far.
\<close>

fun attempt_to_download_loop ::
  "('w, 'r, 'x) runtime \<Rightarrow> string \<Rightarrow> (string, annot_info) dict \<Rightarrow> int option \<Rightarrow>
   string list \<Rightarrow> string list \<Rightarrow> ('w, 'r) env \<Rightarrow> (py_error + string list) \<times> ('w, 'r) env" where
  "attempt_to_download_loop rt videos_dir samples_info num_samples [] downloaded s =
     (Inr downloaded, s)"
| "attempt_to_download_loop rt videos_dir samples_info num_samples (sample_id # ids) downloaded s =
     (case dict_getitem samples_info sample_id of
        Inl e \<Rightarrow> (Inl e, s)
      | Inr sample_info \<Rightarrow>
          (let output_path = path_join videos_dir (sample_id @ ''.mp4'')
           in case do_download rt (url sample_info) output_path s of
                ((success, error), s1) \<Rightarrow>
                  (let s2 = s1\<lparr>fetch_log := fetch_log s1 @ [(sample_id, success)]\<rparr>
                   in if \<not> success
                      then attempt_to_download_loop rt videos_dir samples_info num_samples
                             ids downloaded s2
                      else if num_samples \<noteq> None \<and>
                              the num_samples \<le> int (length (downloaded @ [sample_id]))
                      then (Inr (downloaded @ [sample_id]), s2)
                      else attempt_to_download_loop rt videos_dir samples_info num_samples
                             ids (downloaded @ [sample_id]) s2)))"

definition attempt_to_download ::
  "('w, 'r, 'x) runtime \<Rightarrow> string \<Rightarrow> string list \<Rightarrow> (string, annot_info) dict \<Rightarrow> int option \<Rightarrow>
   ('w, 'r) env \<Rightarrow> (py_error + string list) \<times> ('w, 'r) env" where
  "attempt_to_download rt videos_dir ids samples_info num_samples s =
     attempt_to_download_loop rt videos_dir samples_info num_samples ids [] s"

section \<open>ActivityNet: choosing the samples of a run\<close>

text \<open>
  The local variables of \<^verbatim>\<open>_downloaded_necessary_samples\<close> that one step hands to the
  next. \<open>dl_any_class_ids\<close> is assigned in step 2 only, so it is \<open>None\<close> (unbound) when
  step 2 did not run.
\<close>

record locals =
  requested_samples :: "(string, annot_info) dict"
  requested_num :: "int option"
  num_downloaded_samples :: nat
  dl_all_class_ids :: "string list"
  dl_any_class_ids :: "string list option"

text \<open>Sequencing: an exception of the first part ends the computation.\<close>

definition then_do ::
  "('s \<Rightarrow> (py_error + 'a) \<times> 's) \<Rightarrow> ('a \<Rightarrow> 's \<Rightarrow> (py_error + 'b) \<times> 's) \<Rightarrow>
   's \<Rightarrow> (py_error + 'b) \<times> 's" where
  "then_do m f s = (case m s of (Inl e, s1) \<Rightarrow> (Inl e, s1) | (Inr a, s1) \<Rightarrow> f a s1)"

text \<open>Step 1: take the all-class ids that are downloaded, up to \<open>max_samples\<close>.\<close>

definition take_downloaded_all_class ::
  "('w, 'r, 'x) runtime \<Rightarrow> (string, annot_info) dict \<Rightarrow> string list \<Rightarrow> int option \<Rightarrow> bool \<Rightarrow>
   ('w, 'r) env \<Rightarrow> (py_error + locals) \<times> ('w, 'r) env" where
  "take_downloaded_all_class rt all_class_samples prev_downloaded_ids max_samples shuffle s =
     (let set_all_ids = set_of_list rt (dict_keys all_class_samples);
          requested_samples0 = [];
          requested_num0 = max_samples;
          set_downloaded_ids = set_of_list rt prev_downloaded_ids
      in case shuffle_if rt shuffle (set_intersection rt set_all_ids set_downloaded_ids) s of
           (dl_all, s1) \<Rightarrow>
             (let add_ids = slice_to dl_all requested_num0
              in case dict_comp all_class_samples add_ids of
                   Inl e \<Rightarrow> (Inl e, s1)
                 | Inr new \<Rightarrow>
                     (Inr \<lparr>requested_samples = dict_update requested_samples0 new,
                           requested_num = decrement_if_truthy requested_num0 (length add_ids),
                           num_downloaded_samples = 0,
                           dl_all_class_ids = dl_all,
                           dl_any_class_ids = None\<rparr>, s1)))"

text \<open>Step 2: take the any-class ids that are downloaded, up to what is still requested.\<close>

definition take_downloaded_any_class ::
  "('w, 'r, 'x) runtime \<Rightarrow> (string, annot_info) dict \<Rightarrow> string list \<Rightarrow> bool \<Rightarrow> locals \<Rightarrow>
   ('w, 'r) env \<Rightarrow> (py_error + locals) \<times> ('w, 'r) env" where
  "take_downloaded_any_class rt any_class_samples prev_downloaded_ids shuffle l s =
     (if requested_num l = None \<or> truthy (requested_num l)
      then (let set_any_ids = set_of_list rt (dict_keys any_class_samples);
                set_downloaded_ids = set_of_list rt prev_downloaded_ids
            in case shuffle_if rt shuffle (set_intersection rt set_any_ids set_downloaded_ids) s of
                 (dl_any, s1) \<Rightarrow>
                   (let add_ids = slice_to dl_any (requested_num l)
                    in case dict_comp any_class_samples add_ids of
                         Inl e \<Rightarrow> (Inl e, s1)
                       | Inr new \<Rightarrow>
                           (Inr (l\<lparr>requested_samples := dict_update (requested_samples l) new,
                                   requested_num :=
                                     decrement_if_truthy (requested_num l) (length add_ids),
                                   dl_any_class_ids := Some dl_any\<rparr>), s1)))
      else (Inr l, s))"

text \<open>Step 3: download all-class ids, up to what is still requested.\<close>

definition download_all_class ::
  "('w, 'r, 'x) runtime \<Rightarrow> string \<Rightarrow> (string, annot_info) dict \<Rightarrow> bool \<Rightarrow> locals \<Rightarrow>
   ('w, 'r) env \<Rightarrow> (py_error + locals) \<times> ('w, 'r) env" where
  "download_all_class rt videos_dir all_class_samples shuffle l s =
     (if requested_num l = None \<or> truthy (requested_num l)
      then (let set_all_ids = set_of_list rt (dict_keys all_class_samples)
            in case shuffle_if rt shuffle
                      (set_difference rt set_all_ids (set_of_list rt (dl_all_class_ids l))) s of
                 (not_dl_all_class_ids, s1) \<Rightarrow>
                   (case attempt_to_download rt videos_dir not_dl_all_class_ids
                           all_class_samples (requested_num l) s1 of
                      (Inl e, s2) \<Rightarrow> (Inl e, s2)
                    | (Inr downloaded_ids, s2) \<Rightarrow>
                        (case dict_comp all_class_samples downloaded_ids of
                           Inl e \<Rightarrow> (Inl e, s2)
                         | Inr new \<Rightarrow>
                             (Inr (l\<lparr>num_downloaded_samples :=
                                       num_downloaded_samples l + length downloaded_ids,
                                     requested_samples := dict_update (requested_samples l) new,
                                     requested_num :=
                                       decrement_if_truthy (requested_num l)
                                         (length downloaded_ids)\<rparr>), s2))))
      else (Inr l, s))"

text \<open>
  Step 4: download any-class ids, up to what is still requested. It reads
  \<open>dl_any_class_ids\<close>, and \<open>requested_num\<close> is not updated any more.
\<close>

definition download_any_class ::
  "('w, 'r, 'x) runtime \<Rightarrow> string \<Rightarrow> (string, annot_info) dict \<Rightarrow> bool \<Rightarrow> locals \<Rightarrow>
   ('w, 'r) env \<Rightarrow> (py_error + locals) \<times> ('w, 'r) env" where
  "download_any_class rt videos_dir any_class_samples shuffle l s =
     (if requested_num l = None \<or> truthy (requested_num l)
      then (case dl_any_class_ids l of
              None \<Rightarrow> (Inl UnboundLocalError, s)
            | Some dl_any \<Rightarrow>
                (let set_any_ids = set_of_list rt (dict_keys any_class_samples)
                 in case shuffle_if rt shuffle
                      (set_difference rt set_any_ids (set_of_list rt dl_any)) s of
                      (not_dl_any_class_ids, s1) \<Rightarrow>
                        (case attempt_to_download rt videos_dir not_dl_any_class_ids
                                any_class_samples (requested_num l) s1 of
                           (Inl e, s2) \<Rightarrow> (Inl e, s2)
                         | (Inr downloaded_ids, s2) \<Rightarrow>
                             (case dict_comp any_class_samples downloaded_ids of
                                Inl e \<Rightarrow> (Inl e, s2)
                              | Inr new \<Rightarrow>
                                  (Inr (l\<lparr>num_downloaded_samples :=
                                            num_downloaded_samples l + length downloaded_ids,
                                          requested_samples :=
                                            dict_update (requested_samples l) new\<rparr>), s2)))))
      else (Inr l, s))"

text \<open>
  \<^verbatim>\<open>_downloaded_necessary_samples\<close>: the generator is seeded when \<open>shuffle\<close> holds and a
  seed is given, then the four steps run in order. The result is
  \<open>(requested_samples, num_downloaded_samples)\<close>.
\<close>

definition downloaded_necessary_samples ::
  "('w, 'r, 'x) runtime \<Rightarrow> string \<Rightarrow> (string, annot_info) dict \<Rightarrow> (string, annot_info) dict \<Rightarrow>
   string list \<Rightarrow> int option \<Rightarrow> int option \<Rightarrow> bool \<Rightarrow> ('w, 'r) env \<Rightarrow>
   (py_error + (string, annot_info) dict \<times> nat) \<times> ('w, 'r) env" where
  "downloaded_necessary_samples rt videos_dir all_class_samples any_class_samples
       prev_downloaded_ids max_samples seed shuffle s =
     (let s0 = (if shuffle
                then (case seed of None \<Rightarrow> s | Some sd \<Rightarrow> s\<lparr>rng := random_seed rt sd\<rparr>)
                else s)
      in then_do
           (take_downloaded_all_class rt all_class_samples prev_downloaded_ids max_samples shuffle)
           (\<lambda>l1. then_do
              (take_downloaded_any_class rt any_class_samples prev_downloaded_ids shuffle l1)
              (\<lambda>l2. then_do
                 (download_all_class rt videos_dir all_class_samples shuffle l2)
                 (\<lambda>l3. then_do
                    (download_any_class rt videos_dir any_class_samples shuffle l3)
                    (\<lambda>l4 s4. (Inr (requested_samples l4, num_downloaded_samples l4), s4)))))
           s0)"

section \<open>Open Images: the ids of a split\<close>

text \<open>
  The part of \<^verbatim>\<open>_load_open_images_split\<close> that turns the set \<open>valid_ids\<close> into the list of
  ids to load (\<^verbatim>\<open>list(valid_ids)\<close> is the set in its iteration order): the list is
  shuffled and cut only when \<open>max_samples\<close> is true (neither \<^verbatim>\<open>None\<close> nor \<open>0\<close>), and an
  empty list raises \<^verbatim>\<open>ValueError("No samples found")\<close>.
\<close>

definition load_open_images_split_valid_ids ::
  "('w, 'r, 'x) runtime \<Rightarrow> pyset \<Rightarrow> int option \<Rightarrow> ('w, 'r) env \<Rightarrow>
   (py_error + string list) \<times> ('w, 'r) env" where
  "load_open_images_split_valid_ids rt valid_ids max_samples s =
     (case (if truthy max_samples
            then (case random_shuffle rt valid_ids (rng s) of
                    (shuffled, r) \<Rightarrow> (slice_to shuffled max_samples, s\<lparr>rng := r\<rparr>))
            else (valid_ids, s)) of
        (ids, s1) \<Rightarrow> if ids = [] then (Inl ValueError, s1) else (Inr ids, s1))"

section \<open>A runtime for the examples\<close>

text \<open>
  Sets iterate in sorted order, shuffling reverses the list (the generator state counts
  the shuffles), and the download of a URL succeeds unless the URL is empty.
\<close>

definition example_runtime :: "(unit, nat, unit) runtime" where
  "example_runtime =
     \<lparr>set_of_list = (\<lambda>xs. sorted_list_of_set (set xs)),
      set_intersection = (\<lambda>a b. sorted_list_of_set (set a \<inter> set b)),
      set_difference = (\<lambda>a b. sorted_list_of_set (set a - set b)),
      random_seed = (\<lambda>sd. 0),
      random_shuffle = (\<lambda>xs r. (rev xs, Suc r)),
      ydl_download = (\<lambda>u p w. (if u = [] then Some () else None, w))\<rparr>"

text \<open>The same runtime with a download that always raises.\<close>

definition failing_runtime :: "(unit, nat, unit) runtime" where
  "failing_runtime = example_runtime\<lparr>ydl_download := (\<lambda>u p w. (Some (), w))\<rparr>"

definition example_env :: "(unit, nat) env" where
  "example_env = \<lparr>world = (), rng = 0, fetch_log = []\<rparr>"

definition sample :: "string \<Rightarrow> annot_info" where
  "sample u = \<lparr>subset_name = ''validation'', url = u, annotations = []\<rparr>"

text \<open>Four annotated videos: two of the validation split carry requested labels.\<close>

definition example_annotations :: raw_annotations where
  "example_annotations =
     \<lparr>database =
        [(''v1'', \<lparr>subset_name = ''validation'', url = ''http://v1'',
                  annotations = [\<lparr>label = ''Dance''\<rparr>, \<lparr>label = ''Run''\<rparr>]\<rparr>),
         (''v2'', \<lparr>subset_name = ''validation'', url = ''http://v2'',
                  annotations = [\<lparr>label = ''Dance''\<rparr>]\<rparr>),
         (''v3'', \<lparr>subset_name = ''training'', url = ''http://v3'',
                  annotations = [\<lparr>label = ''Dance''\<rparr>, \<lparr>label = ''Run''\<rparr>]\<rparr>),
         (''v4'', \<lparr>subset_name = ''validation'', url = ''http://v4'',
                  annotations = [\<lparr>label = ''Swim''\<rparr>]\<rparr>)]\<rparr>"

section \<open>Facts about dicts\<close>

lemma dict_keys_simps [simp]:
  "dict_keys [] = []"
  "dict_keys (kv # d) = fst kv # dict_keys d"
  "dict_keys (d @ e) = dict_keys d @ dict_keys e"
  "length (dict_keys d) = length d"
  by (simp_all add: dict_keys_def)

lemma dict_keys_setitem:
  "dict_keys (dict_setitem d k v) = (if k \<in> set (dict_keys d) then dict_keys d else dict_keys d @ [k])"
  by (induction d) auto



lemma dict_update_Nil [simp]: "dict_update d [] = d"
  by (simp add: dict_update_def)

lemma dict_update_Cons: "dict_update d ((k, v) # e) = dict_update (dict_setitem d k v) e"
  by (simp add: dict_update_def)

lemma dict_keys_update:
  "\<exists>rest. dict_keys (dict_update d e) = dict_keys d @ rest \<and> distinct rest \<and>
          set rest = set (dict_keys e) - set (dict_keys d)"
proof (induction e arbitrary: d)
  case Nil
  then show ?case by simp
next
  case (Cons kv e)
  obtain k v where kv: "kv = (k, v)" by (cases kv)
  obtain rest where r: "dict_keys (dict_update (dict_setitem d k v) e) = dict_keys (dict_setitem d k v) @ rest"
    "distinct rest" "set rest = set (dict_keys e) - set (dict_keys (dict_setitem d k v))"
    using Cons.IH by blast
  show ?case
  proof (cases "k \<in> set (dict_keys d)")
    case True
    have "dict_keys (dict_update d (kv # e)) = dict_keys d @ rest"
      using r(1) kv True by (simp add: dict_update_Cons dict_keys_setitem)
    moreover have "set rest = set (dict_keys (kv # e)) - set (dict_keys d)"
      using r(3) True kv by (auto simp: dict_keys_setitem)
    ultimately show ?thesis using r(2) by blast
  next
    case False
    with r kv have "dict_keys (dict_update d (kv # e)) = dict_keys d @ (k # rest)"
      by (simp add: dict_update_Cons dict_keys_setitem)
    moreover have "distinct (k # rest)" using r False by (auto simp: dict_keys_setitem)
    moreover have "set (k # rest) = set (dict_keys (kv # e)) - set (dict_keys d)"
      using r(3) False kv by (auto simp: dict_keys_setitem)
    ultimately show ?thesis by blast
  qed
qed

lemma set_dict_keys_update:
  "set (dict_keys (dict_update d e)) = set (dict_keys d) \<union> set (dict_keys e)"
proof -
  from dict_keys_update [of d e]
  obtain rest where r: "dict_keys (dict_update d e) = dict_keys d @ rest"
    and s: "set rest = set (dict_keys e) - set (dict_keys d)"
    by (elim exE conjE)
  have "set (dict_keys (dict_update d e)) = set (dict_keys d) \<union> set rest"
    by (simp only: r set_append)
  also have "\<dots> = set (dict_keys d) \<union> set (dict_keys e)"
    by (simp only: s Un_Diff_cancel)
  finally show ?thesis .
qed


lemma distinct_dict_keys_update:
  "distinct (dict_keys d) \<Longrightarrow> distinct (dict_keys (dict_update d e))"
proof -
  assume d: "distinct (dict_keys d)"
  from dict_keys_update [of d e]
  obtain rest where r: "dict_keys (dict_update d e) = dict_keys d @ rest"
    and dr: "distinct rest"
    and s: "set rest = set (dict_keys e) - set (dict_keys d)"
    by (elim exE conjE)
  have "set (dict_keys d) \<inter> set rest = {}" using s by blast
  then show ?thesis using d dr by (simp only: r distinct_append)
qed

lemma dict_keys_update_prefix:
  "\<exists>rest. dict_keys (dict_update d e) = dict_keys d @ rest \<and> (dict_keys e = [] \<longrightarrow> rest = [])"
proof -
  from dict_keys_update [of d e]
  obtain rest where r: "dict_keys (dict_update d e) = dict_keys d @ rest"
    and s: "set rest = set (dict_keys e) - set (dict_keys d)"
    by (elim exE conjE)
  have "dict_keys e = [] \<longrightarrow> rest = []" using s by auto
  then show ?thesis using r by blast
qed

lemma dict_keys_selected_prefix:
  "\<exists>rest. dict_keys (dict_update (dict_update (dict_update n1 n2) n3) n4) = dict_keys n1 @ rest \<and>
          (dict_keys n2 = [] \<and> dict_keys n3 = [] \<and> dict_keys n4 = [] \<longrightarrow> rest = [])"
proof -
  from dict_keys_update_prefix [of n1 n2]
  obtain a where a: "dict_keys (dict_update n1 n2) = dict_keys n1 @ a"
    "dict_keys n2 = [] \<longrightarrow> a = []" by (elim exE conjE)
  from dict_keys_update_prefix [of "dict_update n1 n2" n3]
  obtain b where b: "dict_keys (dict_update (dict_update n1 n2) n3) = dict_keys (dict_update n1 n2) @ b"
    "dict_keys n3 = [] \<longrightarrow> b = []" by (elim exE conjE)
  from dict_keys_update_prefix [of "dict_update (dict_update n1 n2) n3" n4]
  obtain c where c: "dict_keys (dict_update (dict_update (dict_update n1 n2) n3) n4) =
      dict_keys (dict_update (dict_update n1 n2) n3) @ c"
    "dict_keys n4 = [] \<longrightarrow> c = []" by (elim exE conjE)
  have "dict_keys (dict_update (dict_update (dict_update n1 n2) n3) n4) = dict_keys n1 @ (a @ b @ c)"
    by (simp only: a(1) b(1) c(1) append_assoc)
  moreover have "dict_keys n2 = [] \<and> dict_keys n3 = [] \<and> dict_keys n4 = [] \<longrightarrow> a @ b @ c = []"
    using a(2) b(2) c(2) by simp
  ultimately show ?thesis by blast
qed

lemma set_dict_keys_selected:
  "set (dict_keys (dict_update (dict_update (dict_update n1 n2) n3) n4)) =
   set (dict_keys n1) \<union> set (dict_keys n2) \<union> set (dict_keys n3) \<union> set (dict_keys n4)"
  by (simp only: set_dict_keys_update)


lemma dict_getitem_ok:
  "k \<in> set (dict_keys d) \<Longrightarrow> \<exists>v. dict_getitem d k = Inr v"
  by (cases "map_of d k") (auto simp: dict_getitem_def dict_keys_def map_of_eq_None_iff)

lemma dict_setitem_new:
  "k \<notin> set (dict_keys d) \<Longrightarrow> dict_setitem d k v = d @ [(k, v)]"
  by (induction d) auto

lemma dict_update_disjoint:
  "distinct (dict_keys e) \<Longrightarrow> set (dict_keys e) \<inter> set (dict_keys d) = {} \<Longrightarrow>
   dict_update d e = d @ e"
proof (induction e arbitrary: d)
  case Nil
  then show ?case by simp
next
  case (Cons kv e)
  obtain k v where kv: "kv = (k, v)" by (cases kv)
  have k: "k \<notin> set (dict_keys d)" "k \<notin> set (dict_keys e)" "distinct (dict_keys e)"
    using Cons.prems kv by auto
  have "set (dict_keys e) \<inter> set (dict_keys (d @ [(k, v)])) = {}"
    using Cons.prems k kv by auto
  then have "dict_update (d @ [(k, v)]) e = (d @ [(k, v)]) @ e"
    using Cons.IH k(3) by blast
  then show ?case using k kv by (simp add: dict_update_Cons dict_setitem_new)
qed

lemma dict_comp_ok:
  "distinct ids \<Longrightarrow> set ids \<subseteq> set (dict_keys d) \<Longrightarrow>
   \<exists>new. dict_comp d ids = Inr new \<and> dict_keys new = ids"
proof (induction ids)
  case Nil
  then show ?case by simp
next
  case (Cons i ids)
  then obtain v where v: "dict_getitem d i = Inr v" using dict_getitem_ok [of i d] by auto
  from Cons obtain new where n: "dict_comp d ids = Inr new" "dict_keys new = ids" by auto
  have "dict_update [(i, v)] new = [(i, v)] @ new"
    using Cons.prems n(2) by (intro dict_update_disjoint) auto
  then show ?case using v n by simp
qed


section \<open>Facts about slices, truth values and shuffling\<close>

lemma slice_to_take: "\<exists>m. slice_to xs n = take m xs"
proof (cases n)
  case None
  then have "slice_to xs n = take (length xs) xs" by (simp add: slice_to_def)
  then show ?thesis ..
next
  case (Some k)
  then show ?thesis by (auto simp: slice_to_def)
qed

lemma set_slice_to: "set (slice_to xs n) \<subseteq> set xs"
proof -
  from slice_to_take [of xs n] obtain m where "slice_to xs n = take m xs" ..
  then show ?thesis by (simp add: set_take_subset)
qed

lemma distinct_slice_to: "distinct xs \<Longrightarrow> distinct (slice_to xs n)"
proof -
  assume d: "distinct xs"
  from slice_to_take [of xs n] obtain m where "slice_to xs n = take m xs" ..
  then show ?thesis using d by simp
qed

lemma slice_to_None [simp]: "slice_to xs None = xs"
  by (simp add: slice_to_def)

lemma slice_to_nonneg: "0 \<le> k \<Longrightarrow> slice_to xs (Some k) = take (nat k) xs"
  by (simp add: slice_to_def)

lemma slice_to_negative: "k < 0 \<Longrightarrow> slice_to xs (Some k) = take (length xs - nat (- k)) xs"
proof -
  assume "k < 0"
  then have "nat (int (length xs) + k) = length xs - nat (- k)" by linarith
  with \<open>k < 0\<close> show ?thesis by (simp add: slice_to_def)
qed

lemma decrement_if_truthy_None [simp]: "decrement_if_truthy None k = None"
  by (simp add: decrement_if_truthy_def truthy_def)

lemma decrement_if_truthy_Some: "decrement_if_truthy (Some n) k = Some (n - int k) \<or> (n = 0 \<and> decrement_if_truthy (Some n) k = Some 0)"
  by (simp add: decrement_if_truthy_def truthy_def)

lemma decrement_if_truthy_zero [simp]: "decrement_if_truthy n 0 = n"
  by (cases n) (simp_all add: decrement_if_truthy_def truthy_def)

lemma decrement_if_truthy_nonneg:
  "0 \<le> n \<Longrightarrow> int k \<le> n \<Longrightarrow> decrement_if_truthy (Some n) k = Some (n - int k)"
  by (auto simp: decrement_if_truthy_def truthy_def)

lemma decrement_if_truthy_stays_zero:
  "decrement_if_truthy n k \<noteq> Some 0 \<Longrightarrow> n \<noteq> Some 0"
  by (auto simp: decrement_if_truthy_def truthy_def)

lemma guard_iff: "(n = None \<or> truthy n) \<longleftrightarrow> n \<noteq> Some 0"
  by (cases n) (simp_all add: truthy_def)

lemma shuffle_if_spec:
  assumes "runtime_ok rt"
  shows "\<exists>ys r. shuffle_if rt shuffle xs s = (ys, s\<lparr>rng := r\<rparr>) \<and> mset ys = mset xs \<and>
               (\<not> shuffle \<longrightarrow> ys = xs \<and> r = rng s)"
proof (cases shuffle)
  case True
  obtain ys r where yr: "random_shuffle rt xs (rng s) = (ys, r)" by (cases "random_shuffle rt xs (rng s)")
  have "mset (fst (random_shuffle rt xs (rng s))) = mset xs"
    using assms by (simp add: runtime_ok_def)
  then have m: "mset ys = mset xs" using yr by simp
  have e: "shuffle_if rt shuffle xs s = (ys, s\<lparr>rng := r\<rparr>)"
    using True yr by (simp add: shuffle_if_def)
  show ?thesis using e m True by blast
next
  case False
  have "shuffle_if rt shuffle xs s = (xs, s\<lparr>rng := rng s\<rparr>)" using False by (simp add: shuffle_if_def)
  then show ?thesis using False by blast
qed

lemma runtime_ok_sets:
  assumes "runtime_ok rt"
  shows "distinct (set_intersection rt (set_of_list rt xs) (set_of_list rt ys))"
    and "set (set_intersection rt (set_of_list rt xs) (set_of_list rt ys)) = set xs \<inter> set ys"
    and "distinct (set_difference rt (set_of_list rt xs) (set_of_list rt ys))"
    and "set (set_difference rt (set_of_list rt xs) (set_of_list rt ys)) = set xs - set ys"
proof -
  have l: "set (set_of_list rt zs) = set zs" for zs
    using assms unfolding runtime_ok_def by blast
  have i: "distinct (set_intersection rt a b) \<and> set (set_intersection rt a b) = set a \<inter> set b"
    for a b using assms unfolding runtime_ok_def by blast
  have d: "distinct (set_difference rt a b) \<and> set (set_difference rt a b) = set a - set b"
    for a b using assms unfolding runtime_ok_def by blast
  show "distinct (set_intersection rt (set_of_list rt xs) (set_of_list rt ys))"
    using i by blast
  show "set (set_intersection rt (set_of_list rt xs) (set_of_list rt ys)) = set xs \<inter> set ys"
    using i [of "set_of_list rt xs" "set_of_list rt ys"] l by simp
  show "distinct (set_difference rt (set_of_list rt xs) (set_of_list rt ys))"
    using d by blast
  show "set (set_difference rt (set_of_list rt xs) (set_of_list rt ys)) = set xs - set ys"
    using d [of "set_of_list rt xs" "set_of_list rt ys"] l by simp
qed

lemma shuffled_candidates:
  assumes "runtime_ok rt" and "distinct xs"
  shows "\<exists>ys r. shuffle_if rt shuffle xs s = (ys, s\<lparr>rng := r\<rparr>) \<and>
               distinct ys \<and> set ys = set xs \<and> (\<not> shuffle \<longrightarrow> ys = xs \<and> r = rng s)"
proof -
  from shuffle_if_spec [OF assms(1), of shuffle xs s]
  obtain ys r where a: "shuffle_if rt shuffle xs s = (ys, s\<lparr>rng := r\<rparr>)"
    and b: "mset ys = mset xs"
    and c: "\<not> shuffle \<longrightarrow> ys = xs \<and> r = rng s"
    by (elim exE conjE)
  have "set ys = set xs" using mset_eq_setD [OF b] .
  moreover have "distinct ys" using mset_eq_imp_distinct_iff [OF b] assms(2) by simp
  ultimately show ?thesis using a c by blast
qed

section \<open>Facts about the download loop\<close>

lemma do_download_spec:
  "\<exists>ok e w. do_download rt u p s = ((ok, e), s\<lparr>world := w\<rparr>) \<and> (always_fails rt \<longrightarrow> \<not> ok)"
proof -
  obtain x w where d: "ydl_download rt u p (world s) = (x, w)"
    by (cases "ydl_download rt u p (world s)")
  show ?thesis
  proof (cases x)
    case None
    then have "do_download rt u p s = ((True, None), s\<lparr>world := w\<rparr>)"
      using d by (simp add: do_download_def)
    moreover have "\<not> always_fails rt"
      using d None by (auto simp: always_fails_def) (metis fst_conv)
    ultimately show ?thesis by blast
  next
    case (Some e)
    then have "do_download rt u p s = ((False, Some e), s\<lparr>world := w\<rparr>)"
      using d by (simp add: do_download_def)
    then show ?thesis by blast
  qed
qed

lemma attempt_to_download_loop_spec:
  assumes "set ids \<subseteq> set (dict_keys info)"
  shows "\<exists>att w.
           attempt_to_download_loop rt vd info num ids acc s =
             (Inr (acc @ map fst (filter snd att)),
              s\<lparr>world := w, fetch_log := fetch_log s @ att\<rparr>) \<and>
           map fst att = take (length att) ids \<and>
           (num = None \<longrightarrow> length att = length ids) \<and>
           (\<forall>n. num = Some n \<longrightarrow> int (length acc) < n \<longrightarrow>
                int (length acc + length (filter snd att)) \<le> n) \<and>
           (always_fails rt \<longrightarrow> length att = length ids \<and> filter snd att = [])"
  using assms
proof (induction ids arbitrary: acc s)
  case Nil
  have "attempt_to_download_loop rt vd info num [] acc s =
          (Inr (acc @ map fst (filter snd [])), s\<lparr>world := world s, fetch_log := fetch_log s @ []\<rparr>)"
    by simp
  then show ?case by (intro exI [of _ "[]"] exI [of _ "world s"]) simp
next
  case (Cons i ids)
  let ?p = "path_join vd (i @ ''.mp4'')"
  from Cons.prems obtain info_i where g: "dict_getitem info i = Inr info_i"
    using dict_getitem_ok [of i info] by auto
  from do_download_spec [of rt "url info_i" ?p s]
  obtain ok e w1 where d: "do_download rt (url info_i) ?p s = ((ok, e), s\<lparr>world := w1\<rparr>)"
    and f: "always_fails rt \<longrightarrow> \<not> ok"
    by (elim exE conjE)
  define s2 where "s2 = s\<lparr>world := w1, fetch_log := fetch_log s @ [(i, ok)]\<rparr>"
  have sub: "set ids \<subseteq> set (dict_keys info)" using Cons.prems by simp
  show ?case
  proof (cases "ok \<and> num \<noteq> None \<and> the num \<le> int (length (acc @ [i]))")
    case True
    then obtain n where n: "num = Some n" "n \<le> int (length acc) + 1" by auto
    have r: "attempt_to_download_loop rt vd info num (i # ids) acc s =
            (Inr (acc @ map fst (filter snd [(i, ok)])),
             s\<lparr>world := w1, fetch_log := fetch_log s @ [(i, ok)]\<rparr>)"
      using True g d by simp
    have "\<not> always_fails rt" using True f by blast
    then show ?thesis using r n True
      by (intro exI [of _ "[(i, ok)]"] exI [of _ w1]) simp
  next
    case False
    define acc' where "acc' = (if ok then acc @ [i] else acc)"
    have r: "attempt_to_download_loop rt vd info num (i # ids) acc s =
             attempt_to_download_loop rt vd info num ids acc' s2"
      using False g d by (auto simp: acc'_def s2_def)
    from Cons.IH [OF sub, of acc' s2]
    obtain att w where
      a1: "attempt_to_download_loop rt vd info num ids acc' s2 =
             (Inr (acc' @ map fst (filter snd att)),
              s2\<lparr>world := w, fetch_log := fetch_log s2 @ att\<rparr>)"
      and a2: "map fst att = take (length att) ids"
      and a3: "num = None \<longrightarrow> length att = length ids"
      and a4: "\<forall>n. num = Some n \<longrightarrow> int (length acc') < n \<longrightarrow>
                int (length acc' + length (filter snd att)) \<le> n"
      and a5: "always_fails rt \<longrightarrow> length att = length ids \<and> filter snd att = []"
      by (elim exE conjE)
    have e1: "acc' @ map fst (filter snd att) = acc @ map fst (filter snd ((i, ok) # att))"
      by (simp add: acc'_def)
    have e2: "s2\<lparr>world := w, fetch_log := fetch_log s2 @ att\<rparr> =
              s\<lparr>world := w, fetch_log := fetch_log s @ ((i, ok) # att)\<rparr>"
      by (simp add: s2_def)
    have c1: "attempt_to_download_loop rt vd info num (i # ids) acc s =
             (Inr (acc @ map fst (filter snd ((i, ok) # att))),
              s\<lparr>world := w, fetch_log := fetch_log s @ ((i, ok) # att)\<rparr>)"
      using r a1 e1 e2 by simp
    have c2: "map fst ((i, ok) # att) = take (length ((i, ok) # att)) (i # ids)"
      using a2 by simp
    have c3: "num = None \<longrightarrow> length ((i, ok) # att) = length (i # ids)"
      using a3 by simp
    have c4: "\<forall>n. num = Some n \<longrightarrow> int (length acc) < n \<longrightarrow>
                int (length acc + length (filter snd ((i, ok) # att))) \<le> n"
    proof (intro allI impI)
      fix n assume n: "num = Some n" "int (length acc) < n"
      show "int (length acc + length (filter snd ((i, ok) # att))) \<le> n"
      proof (cases ok)
        case True
        with False n have "int (length acc') < n" by (simp add: acc'_def)
        with a4 n have "int (length acc' + length (filter snd att)) \<le> n" by blast
        with True show ?thesis by (simp add: acc'_def)
      next
        case False
        with a4 n show ?thesis by (simp add: acc'_def)
      qed
    qed
    have c5: "always_fails rt \<longrightarrow> length ((i, ok) # att) = length (i # ids) \<and>
                filter snd ((i, ok) # att) = []"
      using a5 f by simp
    show ?thesis using c1 c2 c3 c4 c5 by blast
  qed
qed

lemma download_block:
  assumes ok: "runtime_ok rt" and dist: "distinct cands" and S: "set cands = S"
    and sub: "S \<subseteq> set (dict_keys info)"
  obtains ids r att w new where
    "shuffle_if rt sh (cands) s = (ids, s\<lparr>rng := r\<rparr>)"
    "attempt_to_download rt vd ids info num (s\<lparr>rng := r\<rparr>) =
       (Inr (map fst (filter snd att)),
        s\<lparr>world := w, rng := r, fetch_log := fetch_log s @ att\<rparr>)"
    "dict_comp info (map fst (filter snd att)) = Inr new"
    "dict_keys new = map fst (filter snd att)"
    "distinct (map fst att)" "set (map fst att) \<subseteq> S"
    "num = None \<longrightarrow> set (map fst att) = S"
    "\<forall>n. num = Some n \<longrightarrow> 0 < n \<longrightarrow> int (length (filter snd att)) \<le> n"
    "always_fails rt \<longrightarrow> filter snd att = [] \<and> set (map fst att) = S"
    "\<not> sh \<longrightarrow> r = rng s \<and> ids = cands"
proof -
  from shuffled_candidates [OF ok dist, of sh s]
  obtain ids r where i1: "shuffle_if rt sh (cands) s = (ids, s\<lparr>rng := r\<rparr>)"
    and i2: "distinct ids" and i3': "set ids = set cands"
    and i4: "\<not> sh \<longrightarrow> ids = cands \<and> r = rng s"
    by (elim exE conjE)
  have i3: "set ids = S" using i3' S by simp
  have "set ids \<subseteq> set (dict_keys info)" using i3 sub by simp
  from attempt_to_download_loop_spec [OF this, of rt vd num "[]" "s\<lparr>rng := r\<rparr>"]
  obtain att w where
    a1: "attempt_to_download_loop rt vd info num ids [] (s\<lparr>rng := r\<rparr>) =
           (Inr ([] @ map fst (filter snd att)),
            s\<lparr>rng := r, world := w, fetch_log := fetch_log (s\<lparr>rng := r\<rparr>) @ att\<rparr>)"
    and a2: "map fst att = take (length att) ids"
    and a3: "num = None \<longrightarrow> length att = length ids"
    and a4: "\<forall>n. num = Some n \<longrightarrow> int (length ([]::string list)) < n \<longrightarrow>
                int (length ([]::string list) + length (filter snd att)) \<le> n"
    and a5: "always_fails rt \<longrightarrow> length att = length ids \<and> filter snd att = []"
    by (elim exE conjE)
  have b1: "attempt_to_download rt vd ids info num (s\<lparr>rng := r\<rparr>) =
       (Inr (map fst (filter snd att)),
        s\<lparr>world := w, rng := r, fetch_log := fetch_log s @ att\<rparr>)"
    using a1 by (simp add: attempt_to_download_def)
  have d: "distinct (map fst att)" using a2 i2 by simp
  have s: "set (map fst att) \<subseteq> S" using a2 i3 set_take_subset [of "length att" ids] by simp
  have full: "length att = length ids \<Longrightarrow> set (map fst att) = S"
    using a2 i3 by simp
  have d2: "distinct (map fst (filter snd att))" using d by (rule distinct_map_filter)
  have s2: "set (map fst (filter snd att)) \<subseteq> set (dict_keys info)"
    using s sub by auto
  from dict_comp_ok [OF d2 s2]
  obtain new where n: "dict_comp info (map fst (filter snd att)) = Inr new"
    "dict_keys new = map fst (filter snd att)"
    by (elim exE conjE)
  show ?thesis
  proof (rule that [OF i1 b1 n d s])
    show "num = None \<longrightarrow> set (map fst att) = S" using a3 full by blast
    show "\<forall>n. num = Some n \<longrightarrow> 0 < n \<longrightarrow> int (length (filter snd att)) \<le> n"
      using a4 by simp
    show "always_fails rt \<longrightarrow> filter snd att = [] \<and> set (map fst att) = S"
      using a5 full by blast
    show "\<not> sh \<longrightarrow> r = rng s \<and> ids = cands" using i4 by blast
  qed
qed

lemma do_download_rng:
  "do_download rt u p (s\<lparr>rng := g\<rparr>) =
     (case do_download rt u p s of (r, s') \<Rightarrow> (r, s'\<lparr>rng := g\<rparr>))"
  by (simp add: do_download_def split: prod.splits option.splits)

lemma attempt_to_download_loop_rng:
  "attempt_to_download_loop rt vd info num ids acc (s\<lparr>rng := g\<rparr>) =
     (case attempt_to_download_loop rt vd info num ids acc s of (r, s') \<Rightarrow> (r, s'\<lparr>rng := g\<rparr>))"
proof (induction ids arbitrary: acc s num)
  case Nil
  then show ?case by simp
next
  case (Cons i ids)
  show ?case
  proof (cases "dict_getitem info i")
    case (Inl e)
    then show ?thesis by simp
  next
    case (Inr info_i)
    obtain ok e s1 where d: "do_download rt (url info_i) (path_join vd (i @ ''.mp4'')) s = ((ok, e), s1)"
      by (metis prod.exhaust)
    have d': "do_download rt (url info_i) (path_join vd (i @ ''.mp4'')) (s\<lparr>rng := g\<rparr>) =
        ((ok, e), s1\<lparr>rng := g\<rparr>)"
      using d by (simp add: do_download_rng)
    have ih: "attempt_to_download_loop rt vd info n ids acc'
                (s1\<lparr>rng := g, fetch_log := fetch_log s1 @ [(i, ok)]\<rparr>) =
              (case attempt_to_download_loop rt vd info n ids acc'
                      (s1\<lparr>fetch_log := fetch_log s1 @ [(i, ok)]\<rparr>) of
                 (r, s') \<Rightarrow> (r, s'\<lparr>rng := g\<rparr>))" for acc' n
    proof -
      have u: "s1\<lparr>rng := g, fetch_log := fetch_log s1 @ [(i, ok)]\<rparr> =
               (s1\<lparr>fetch_log := fetch_log s1 @ [(i, ok)]\<rparr>)\<lparr>rng := g\<rparr>"
        by (cases s1) simp
      show ?thesis unfolding u
        by (rule Cons.IH [of n acc' "s1\<lparr>fetch_log := fetch_log s1 @ [(i, ok)]\<rparr>"])
    qed
    show ?thesis
    proof (cases ok)
      case True
      then show ?thesis using Inr d d' ih by (simp add: Let_def)
    next
      case False
      then show ?thesis using Inr d d' ih by (simp add: Let_def)
    qed
  qed
qed

lemma attempt_to_download_rng:
  "attempt_to_download rt vd ids info num (s\<lparr>rng := g\<rparr>) =
     (case attempt_to_download rt vd ids info num s of (r, s') \<Rightarrow> (r, s'\<lparr>rng := g\<rparr>))"
  by (simp add: attempt_to_download_def attempt_to_download_loop_rng)

section \<open>What each step of the selection does\<close>

lemma take_downloaded_all_class_spec:
  assumes ok: "runtime_ok rt"
  shows "\<exists>t1 new r.
           take_downloaded_all_class rt all_s prev ms sh s =
             (Inr \<lparr>requested_samples = new,
                   requested_num = decrement_if_truthy ms (length (slice_to t1 ms)),
                   num_downloaded_samples = 0,
                   dl_all_class_ids = t1,
                   dl_any_class_ids = None\<rparr>, s\<lparr>rng := r\<rparr>) \<and>
           dict_keys new = slice_to t1 ms \<and> distinct t1 \<and>
           set t1 = set (dict_keys all_s) \<inter> set prev \<and>
           (\<not> sh \<longrightarrow>
              t1 = set_intersection rt (set_of_list rt (dict_keys all_s)) (set_of_list rt prev) \<and>
              r = rng s)"
proof -
  let ?S = "set (dict_keys all_s) \<inter> set prev"
  let ?c = "set_intersection rt (set_of_list rt (dict_keys all_s)) (set_of_list rt prev)"
  have dc: "distinct ?c" and sc: "set ?c = ?S" using runtime_ok_sets [OF ok] by blast+
  from shuffled_candidates [OF ok dc, of sh s]
  obtain t1 r where i1: "shuffle_if rt sh ?c s = (t1, s\<lparr>rng := r\<rparr>)"
    and i2: "distinct t1" and i3': "set t1 = set ?c"
    and i4: "\<not> sh \<longrightarrow> t1 = ?c \<and> r = rng s"
    by (elim exE conjE)
  have i3: "set t1 = ?S" using i3' sc by simp
  have d: "distinct (slice_to t1 ms)" using i2 by (rule distinct_slice_to)
  have "set (slice_to t1 ms) \<subseteq> set (dict_keys all_s)"
    using set_slice_to [of t1 ms] i3 by auto
  from dict_comp_ok [OF d this]
  obtain new where n: "dict_comp all_s (slice_to t1 ms) = Inr new"
    "dict_keys new = slice_to t1 ms"
    by (elim exE conjE)
  have u: "dict_update [] new = new"
    using dict_update_disjoint [of new "[]"] n(2) d by simp
  have "take_downloaded_all_class rt all_s prev ms sh s =
             (Inr \<lparr>requested_samples = new,
                   requested_num = decrement_if_truthy ms (length (slice_to t1 ms)),
                   num_downloaded_samples = 0,
                   dl_all_class_ids = t1,
                   dl_any_class_ids = None\<rparr>, s\<lparr>rng := r\<rparr>)"
    by (simp add: take_downloaded_all_class_def i1 n(1) u)
  then show ?thesis using n(2) i2 i3 i4 by blast
qed

lemma take_downloaded_any_class_spec:
  assumes ok: "runtime_ok rt"
  shows "\<exists>add new dl r.
           take_downloaded_any_class rt any_s prev sh l s =
             (Inr (l\<lparr>requested_samples := dict_update (requested_samples l) new,
                     requested_num := decrement_if_truthy (requested_num l) (length add),
                     dl_any_class_ids := dl\<rparr>), s\<lparr>rng := r\<rparr>) \<and>
           dict_keys new = add \<and> distinct add \<and> set add \<subseteq> set (dict_keys any_s) \<inter> set prev \<and>
           (requested_num l = Some 0 \<longrightarrow> add = [] \<and> dl = dl_any_class_ids l) \<and>
           (requested_num l \<noteq> Some 0 \<longrightarrow>
              (\<exists>t2. dl = Some t2 \<and> distinct t2 \<and> set t2 = set (dict_keys any_s) \<inter> set prev \<and>
                    add = slice_to t2 (requested_num l))) \<and>
           (\<not> sh \<longrightarrow> r = rng s)"
proof (cases "requested_num l = Some 0")
  case True
  have "take_downloaded_any_class rt any_s prev sh l s =
          (Inr (l\<lparr>requested_samples := dict_update (requested_samples l) [],
                  requested_num := decrement_if_truthy (requested_num l) (length ([]::string list)),
                  dl_any_class_ids := dl_any_class_ids l\<rparr>), s\<lparr>rng := rng s\<rparr>)"
    using True by (simp add: take_downloaded_any_class_def truthy_def)
  then show ?thesis using True
    by (intro exI [of _ "[]"] exI [of _ "dl_any_class_ids l"] exI [of _ "rng s"]) simp
next
  case False
  then have g: "requested_num l = None \<or> truthy (requested_num l)" by (simp add: guard_iff)
  let ?S = "set (dict_keys any_s) \<inter> set prev"
  let ?c = "set_intersection rt (set_of_list rt (dict_keys any_s)) (set_of_list rt prev)"
  have dc: "distinct ?c" and sc: "set ?c = ?S" using runtime_ok_sets [OF ok] by blast+
  from shuffled_candidates [OF ok dc, of sh s]
  obtain t2 r where i1: "shuffle_if rt sh ?c s = (t2, s\<lparr>rng := r\<rparr>)"
    and i2: "distinct t2" and i3': "set t2 = set ?c"
    and i4: "\<not> sh \<longrightarrow> t2 = ?c \<and> r = rng s"
    by (elim exE conjE)
  have i3: "set t2 = ?S" using i3' sc by simp
  let ?add = "slice_to t2 (requested_num l)"
  have d: "distinct ?add" using i2 by (rule distinct_slice_to)
  have sa: "set ?add \<subseteq> ?S" using set_slice_to [of t2 "requested_num l"] i3 by simp
  then have "set ?add \<subseteq> set (dict_keys any_s)" by blast
  from dict_comp_ok [OF d this]
  obtain new where n: "dict_comp any_s ?add = Inr new" "dict_keys new = ?add"
    by (elim exE conjE)
  have "take_downloaded_any_class rt any_s prev sh l s =
          (Inr (l\<lparr>requested_samples := dict_update (requested_samples l) new,
                  requested_num := decrement_if_truthy (requested_num l) (length ?add),
                  dl_any_class_ids := Some t2\<rparr>), s\<lparr>rng := r\<rparr>)"
    using g by (simp add: take_downloaded_any_class_def i1 n(1))
  then show ?thesis using False n(2) d sa i2 i3 i4
    by (intro exI [of _ ?add] exI [of _ new] exI [of _ "Some t2"] exI [of _ r]) simp
qed

lemma download_all_class_spec:
  assumes ok: "runtime_ok rt"
  shows "\<exists>att new r w.
           download_all_class rt vd all_s sh l s =
             (Inr (l\<lparr>num_downloaded_samples := num_downloaded_samples l + length (filter snd att),
                     requested_samples := dict_update (requested_samples l) new,
                     requested_num :=
                       decrement_if_truthy (requested_num l) (length (filter snd att))\<rparr>),
              s\<lparr>world := w, rng := r, fetch_log := fetch_log s @ att\<rparr>) \<and>
           dict_keys new = map fst (filter snd att) \<and> distinct (map fst att) \<and>
           set (map fst att) \<subseteq> set (dict_keys all_s) - set (dl_all_class_ids l) \<and>
           (requested_num l = Some 0 \<longrightarrow> att = []) \<and>
           (requested_num l = None \<longrightarrow>
              set (map fst att) = set (dict_keys all_s) - set (dl_all_class_ids l)) \<and>
           (\<forall>n. requested_num l = Some n \<longrightarrow> 0 < n \<longrightarrow> int (length (filter snd att)) \<le> n) \<and>
           (always_fails rt \<longrightarrow> filter snd att = [] \<and>
              (requested_num l \<noteq> Some 0 \<longrightarrow>
                 set (map fst att) = set (dict_keys all_s) - set (dl_all_class_ids l))) \<and>
           (\<not> sh \<longrightarrow> r = rng s)"
proof (cases "requested_num l = Some 0")
  case True
  have "download_all_class rt vd all_s sh l s =
          (Inr (l\<lparr>num_downloaded_samples := num_downloaded_samples l + length (filter snd []),
                  requested_samples := dict_update (requested_samples l) [],
                  requested_num := decrement_if_truthy (requested_num l) (length (filter snd []))\<rparr>),
           s\<lparr>world := world s, rng := rng s, fetch_log := fetch_log s @ []\<rparr>)"
    using True by (simp add: download_all_class_def truthy_def)
  then show ?thesis using True
    by (intro exI [of _ "[]"] exI [of _ "world s"] exI [of _ "rng s"]) simp
next
  case False
  then have g: "requested_num l = None \<or> truthy (requested_num l)" by (simp add: guard_iff)
  let ?S = "set (dict_keys all_s) - set (dl_all_class_ids l)"
  let ?c = "set_difference rt (set_of_list rt (dict_keys all_s)) (set_of_list rt (dl_all_class_ids l))"
  have dc: "distinct ?c" and sc: "set ?c = ?S" using runtime_ok_sets [OF ok] by blast+
  have sub: "?S \<subseteq> set (dict_keys all_s)" by blast
  from download_block [OF ok dc sc sub, of sh s vd "requested_num l"]
  obtain ids r att w new where
    b1: "shuffle_if rt sh ?c s = (ids, s\<lparr>rng := r\<rparr>)"
    and b2: "attempt_to_download rt vd ids all_s (requested_num l) (s\<lparr>rng := r\<rparr>) =
       (Inr (map fst (filter snd att)),
        s\<lparr>world := w, rng := r, fetch_log := fetch_log s @ att\<rparr>)"
    and b3: "dict_comp all_s (map fst (filter snd att)) = Inr new"
    and b4: "dict_keys new = map fst (filter snd att)"
    and b5: "distinct (map fst att)" and b6: "set (map fst att) \<subseteq> ?S"
    and b7: "requested_num l = None \<longrightarrow> set (map fst att) = ?S"
    and b8: "\<forall>n. requested_num l = Some n \<longrightarrow> 0 < n \<longrightarrow> int (length (filter snd att)) \<le> n"
    and b9: "always_fails rt \<longrightarrow> filter snd att = [] \<and> set (map fst att) = ?S"
    and b10: "\<not> sh \<longrightarrow> r = rng s \<and> ids = ?c"
    by blast
  have "download_all_class rt vd all_s sh l s =
             (Inr (l\<lparr>num_downloaded_samples := num_downloaded_samples l + length (filter snd att),
                     requested_samples := dict_update (requested_samples l) new,
                     requested_num :=
                       decrement_if_truthy (requested_num l) (length (filter snd att))\<rparr>),
              s\<lparr>world := w, rng := r, fetch_log := fetch_log s @ att\<rparr>)"
    using g by (simp add: download_all_class_def b1 b2 b3)
  then show ?thesis using False b4 b5 b6 b7 b8 b9 b10
    by (intro exI [of _ att] exI [of _ new] exI [of _ r] exI [of _ w]) simp
qed

lemma download_any_class_spec:
  assumes ok: "runtime_ok rt"
    and bound: "requested_num l \<noteq> Some 0 \<longrightarrow> dl_any_class_ids l = Some t2"
  shows "\<exists>att new r w.
           download_any_class rt vd any_s sh l s =
             (Inr (l\<lparr>num_downloaded_samples := num_downloaded_samples l + length (filter snd att),
                     requested_samples := dict_update (requested_samples l) new\<rparr>),
              s\<lparr>world := w, rng := r, fetch_log := fetch_log s @ att\<rparr>) \<and>
           dict_keys new = map fst (filter snd att) \<and> distinct (map fst att) \<and>
           set (map fst att) \<subseteq> set (dict_keys any_s) - set t2 \<and>
           (requested_num l = Some 0 \<longrightarrow> att = []) \<and>
           (requested_num l = None \<longrightarrow> set (map fst att) = set (dict_keys any_s) - set t2) \<and>
           (\<forall>n. requested_num l = Some n \<longrightarrow> 0 < n \<longrightarrow> int (length (filter snd att)) \<le> n) \<and>
           (always_fails rt \<longrightarrow> filter snd att = [] \<and>
              (requested_num l \<noteq> Some 0 \<longrightarrow> set (map fst att) = set (dict_keys any_s) - set t2)) \<and>
           (\<not> sh \<longrightarrow> r = rng s)"
proof (cases "requested_num l = Some 0")
  case True
  have "download_any_class rt vd any_s sh l s =
          (Inr (l\<lparr>num_downloaded_samples := num_downloaded_samples l + length (filter snd []),
                  requested_samples := dict_update (requested_samples l) []\<rparr>),
           s\<lparr>world := world s, rng := rng s, fetch_log := fetch_log s @ []\<rparr>)"
    using True by (simp add: download_any_class_def truthy_def)
  then show ?thesis using True
    by (intro exI [of _ "[]"] exI [of _ "world s"] exI [of _ "rng s"]) simp
next
  case False
  then have g: "requested_num l = None \<or> truthy (requested_num l)" by (simp add: guard_iff)
  have dl: "dl_any_class_ids l = Some t2" using False bound by blast
  let ?S = "set (dict_keys any_s) - set t2"
  let ?c = "set_difference rt (set_of_list rt (dict_keys any_s)) (set_of_list rt t2)"
  have dc: "distinct ?c" and sc: "set ?c = ?S" using runtime_ok_sets [OF ok] by blast+
  have sub: "?S \<subseteq> set (dict_keys any_s)" by blast
  from download_block [OF ok dc sc sub, of sh s vd "requested_num l"]
  obtain ids r att w new where
    b1: "shuffle_if rt sh ?c s = (ids, s\<lparr>rng := r\<rparr>)"
    and b2: "attempt_to_download rt vd ids any_s (requested_num l) (s\<lparr>rng := r\<rparr>) =
       (Inr (map fst (filter snd att)),
        s\<lparr>world := w, rng := r, fetch_log := fetch_log s @ att\<rparr>)"
    and b3: "dict_comp any_s (map fst (filter snd att)) = Inr new"
    and b4: "dict_keys new = map fst (filter snd att)"
    and b5: "distinct (map fst att)" and b6: "set (map fst att) \<subseteq> ?S"
    and b7: "requested_num l = None \<longrightarrow> set (map fst att) = ?S"
    and b8: "\<forall>n. requested_num l = Some n \<longrightarrow> 0 < n \<longrightarrow> int (length (filter snd att)) \<le> n"
    and b9: "always_fails rt \<longrightarrow> filter snd att = [] \<and> set (map fst att) = ?S"
    and b10: "\<not> sh \<longrightarrow> r = rng s \<and> ids = ?c"
    by blast
  have "download_any_class rt vd any_s sh l s =
             (Inr (l\<lparr>num_downloaded_samples := num_downloaded_samples l + length (filter snd att),
                     requested_samples := dict_update (requested_samples l) new\<rparr>),
              s\<lparr>world := w, rng := r, fetch_log := fetch_log s @ att\<rparr>)"
    using g by (simp add: download_any_class_def dl b1 b2 b3)
  then show ?thesis using False b4 b5 b6 b7 b8 b9 b10
    by (intro exI [of _ att] exI [of _ new] exI [of _ r] exI [of _ w]) simp
qed

section \<open>What a whole run of the selection does\<close>

lemma downloaded_necessary_samples_run:
  assumes ok: "runtime_ok rt"
  obtains t1 new1 r1 add2 new2 r2 att3 new3 r3 att4 new4 s' where
    "downloaded_necessary_samples rt vd all_s any_s prev ms seed sh s =
       (Inr (dict_update (dict_update (dict_update new1 new2) new3) new4,
             length (filter snd att3) + length (filter snd att4)), s')"
    "fetch_log s' = fetch_log s @ att3 @ att4"
    "distinct t1" "set t1 = set (dict_keys all_s) \<inter> set prev"
    "\<not> sh \<longrightarrow> t1 = set_intersection rt (set_of_list rt (dict_keys all_s)) (set_of_list rt prev)"
    "dict_keys new1 = slice_to t1 ms"
    "r1 = decrement_if_truthy ms (length (slice_to t1 ms))"
    "dict_keys new2 = add2" "distinct add2" "set add2 \<subseteq> set (dict_keys any_s) \<inter> set prev"
    "r1 = Some 0 \<longrightarrow> add2 = []"
    "r1 \<noteq> Some 0 \<longrightarrow> (\<exists>t2. distinct t2 \<and> set t2 = set (dict_keys any_s) \<inter> set prev \<and>
                              add2 = slice_to t2 r1)"
    "r2 = decrement_if_truthy r1 (length add2)"
    "dict_keys new3 = map fst (filter snd att3)" "distinct (map fst att3)"
    "set (map fst att3) \<subseteq> set (dict_keys all_s) - set prev"
    "r2 = Some 0 \<longrightarrow> att3 = []"
    "r2 = None \<longrightarrow> set (map fst att3) = set (dict_keys all_s) - set prev"
    "\<forall>n. r2 = Some n \<longrightarrow> 0 < n \<longrightarrow> int (length (filter snd att3)) \<le> n"
    "always_fails rt \<longrightarrow> filter snd att3 = [] \<and>
       (r2 \<noteq> Some 0 \<longrightarrow> set (map fst att3) = set (dict_keys all_s) - set prev)"
    "r3 = decrement_if_truthy r2 (length (filter snd att3))"
    "dict_keys new4 = map fst (filter snd att4)" "distinct (map fst att4)"
    "set (map fst att4) \<subseteq> set (dict_keys any_s) - set prev"
    "r3 = Some 0 \<longrightarrow> att4 = []"
    "r3 = None \<longrightarrow> set (map fst att4) = set (dict_keys any_s) - set prev"
    "\<forall>n. r3 = Some n \<longrightarrow> 0 < n \<longrightarrow> int (length (filter snd att4)) \<le> n"
    "always_fails rt \<longrightarrow> filter snd att4 = [] \<and>
       (r3 \<noteq> Some 0 \<longrightarrow> set (map fst att4) = set (dict_keys any_s) - set prev)"
proof -
  define s0 where "s0 = (if sh then (case seed of None \<Rightarrow> s | Some sd \<Rightarrow> s\<lparr>rng := random_seed rt sd\<rparr>)
                         else s)"
  have log0: "fetch_log s0 = fetch_log s"
    by (cases seed) (simp_all add: s0_def)
  let ?A = "set (dict_keys all_s)" and ?B = "set (dict_keys any_s)" and ?P = "set prev"
  \<comment> \<open>step 1\<close>
  from take_downloaded_all_class_spec [OF ok, of all_s prev ms sh s0]
  obtain t1 new1 g1 where
    e1: "take_downloaded_all_class rt all_s prev ms sh s0 =
             (Inr \<lparr>requested_samples = new1,
                   requested_num = decrement_if_truthy ms (length (slice_to t1 ms)),
                   num_downloaded_samples = 0,
                   dl_all_class_ids = t1,
                   dl_any_class_ids = None\<rparr>, s0\<lparr>rng := g1\<rparr>)"
    and k1: "dict_keys new1 = slice_to t1 ms" and d1: "distinct t1" and m1: "set t1 = ?A \<inter> ?P"
    and o1: "\<not> sh \<longrightarrow> t1 = set_intersection rt (set_of_list rt (dict_keys all_s)) (set_of_list rt prev) \<and>
              g1 = rng s0"
    by (elim exE conjE)
  define r1 where "r1 = decrement_if_truthy ms (length (slice_to t1 ms))"
  define l1 where "l1 = \<lparr>requested_samples = new1, requested_num = r1,
                   num_downloaded_samples = 0, dl_all_class_ids = t1,
                   dl_any_class_ids = None\<rparr>"
  define s1 where "s1 = s0\<lparr>rng := g1\<rparr>"
  \<comment> \<open>step 2\<close>
  from take_downloaded_any_class_spec [OF ok, of any_s prev sh l1 s1]
  obtain add2 new2 dl2 g2 where
    e2: "take_downloaded_any_class rt any_s prev sh l1 s1 =
             (Inr (l1\<lparr>requested_samples := dict_update (requested_samples l1) new2,
                     requested_num := decrement_if_truthy (requested_num l1) (length add2),
                     dl_any_class_ids := dl2\<rparr>), s1\<lparr>rng := g2\<rparr>)"
    and k2: "dict_keys new2 = add2" and d2: "distinct add2" and m2: "set add2 \<subseteq> ?B \<inter> ?P"
    and z2: "requested_num l1 = Some 0 \<longrightarrow> add2 = [] \<and> dl2 = dl_any_class_ids l1"
    and n2: "requested_num l1 \<noteq> Some 0 \<longrightarrow>
              (\<exists>t2. dl2 = Some t2 \<and> distinct t2 \<and> set t2 = ?B \<inter> ?P \<and>
                    add2 = slice_to t2 (requested_num l1))"
    by (elim exE conjE)
  define r2 where "r2 = decrement_if_truthy r1 (length add2)"
  define l2 where "l2 = \<lparr>requested_samples = dict_update new1 new2, requested_num = r2,
                   num_downloaded_samples = 0, dl_all_class_ids = t1,
                   dl_any_class_ids = dl2\<rparr>"
  define s2 where "s2 = s0\<lparr>rng := g2\<rparr>"
  have e2': "take_downloaded_any_class rt any_s prev sh l1 s1 = (Inr l2, s2)"
    using e2 by (simp add: l1_def l2_def r2_def s1_def s2_def)
  obtain t2 where t2: "r1 \<noteq> Some 0 \<longrightarrow> dl2 = Some t2 \<and> distinct t2 \<and> set t2 = ?B \<inter> ?P \<and>
                    add2 = slice_to t2 r1"
    using n2 by (cases "r1 = Some 0") (auto simp: l1_def)
  \<comment> \<open>step 3\<close>
  from download_all_class_spec [OF ok, of vd all_s sh l2 s2]
  obtain att3 new3 g3 w3 where
    e3: "download_all_class rt vd all_s sh l2 s2 =
             (Inr (l2\<lparr>num_downloaded_samples := num_downloaded_samples l2 + length (filter snd att3),
                     requested_samples := dict_update (requested_samples l2) new3,
                     requested_num :=
                       decrement_if_truthy (requested_num l2) (length (filter snd att3))\<rparr>),
              s2\<lparr>world := w3, rng := g3, fetch_log := fetch_log s2 @ att3\<rparr>)"
    and k3: "dict_keys new3 = map fst (filter snd att3)" and d3: "distinct (map fst att3)"
    and m3: "set (map fst att3) \<subseteq> ?A - set (dl_all_class_ids l2)"
    and z3: "requested_num l2 = Some 0 \<longrightarrow> att3 = []"
    and n3: "requested_num l2 = None \<longrightarrow> set (map fst att3) = ?A - set (dl_all_class_ids l2)"
    and c3: "\<forall>n. requested_num l2 = Some n \<longrightarrow> 0 < n \<longrightarrow> int (length (filter snd att3)) \<le> n"
    and f3: "always_fails rt \<longrightarrow> filter snd att3 = [] \<and>
              (requested_num l2 \<noteq> Some 0 \<longrightarrow>
                 set (map fst att3) = ?A - set (dl_all_class_ids l2))"
    by (elim exE conjE)
  define r3 where "r3 = decrement_if_truthy r2 (length (filter snd att3))"
  define l3 where "l3 = \<lparr>requested_samples = dict_update (dict_update new1 new2) new3,
                   requested_num = r3,
                   num_downloaded_samples = length (filter snd att3), dl_all_class_ids = t1,
                   dl_any_class_ids = dl2\<rparr>"
  define s3 where "s3 = s0\<lparr>world := w3, rng := g3, fetch_log := fetch_log s @ att3\<rparr>"
  have e3': "download_all_class rt vd all_s sh l2 s2 = (Inr l3, s3)"
    using e3 by (simp add: l2_def l3_def r3_def s2_def s3_def log0)
  have AP: "?A - set t1 = ?A - ?P" using m1 by blast
  \<comment> \<open>step 4\<close>
  have "r3 \<noteq> Some 0 \<longrightarrow> r1 \<noteq> Some 0"
    using decrement_if_truthy_stays_zero [of r2 "length (filter snd att3)"]
      decrement_if_truthy_stays_zero [of r1 "length add2"]
    by (simp add: r3_def r2_def)
  then have bound: "requested_num l3 \<noteq> Some 0 \<longrightarrow> dl_any_class_ids l3 = Some t2"
    using t2 by (simp add: l3_def)
  from download_any_class_spec [OF ok bound, of vd any_s sh s3]
  obtain att4 new4 g4 w4 where
    e4: "download_any_class rt vd any_s sh l3 s3 =
             (Inr (l3\<lparr>num_downloaded_samples := num_downloaded_samples l3 + length (filter snd att4),
                     requested_samples := dict_update (requested_samples l3) new4\<rparr>),
              s3\<lparr>world := w4, rng := g4, fetch_log := fetch_log s3 @ att4\<rparr>)"
    and k4: "dict_keys new4 = map fst (filter snd att4)" and d4: "distinct (map fst att4)"
    and m4: "set (map fst att4) \<subseteq> ?B - set t2"
    and z4: "requested_num l3 = Some 0 \<longrightarrow> att4 = []"
    and n4: "requested_num l3 = None \<longrightarrow> set (map fst att4) = ?B - set t2"
    and c4: "\<forall>n. requested_num l3 = Some n \<longrightarrow> 0 < n \<longrightarrow> int (length (filter snd att4)) \<le> n"
    and f4: "always_fails rt \<longrightarrow> filter snd att4 = [] \<and>
              (requested_num l3 \<noteq> Some 0 \<longrightarrow> set (map fst att4) = ?B - set t2)"
    by (elim exE conjE)
  define s4 where "s4 = s3\<lparr>world := w4, rng := g4, fetch_log := fetch_log s3 @ att4\<rparr>"
  have BP: "r3 \<noteq> Some 0 \<longrightarrow> ?B - set t2 = ?B - ?P"
    using t2 \<open>r3 \<noteq> Some 0 \<longrightarrow> r1 \<noteq> Some 0\<close> by blast
  have m4': "set (map fst att4) \<subseteq> ?B - ?P"
  proof (cases "r3 = Some 0")
    case True
    then show ?thesis using z4 by (simp add: l3_def)
  next
    case False
    then show ?thesis using m4 BP by simp
  qed
  have total: "downloaded_necessary_samples rt vd all_s any_s prev ms seed sh s =
       (Inr (dict_update (dict_update (dict_update new1 new2) new3) new4,
             length (filter snd att3) + length (filter snd att4)), s4)"
    unfolding downloaded_necessary_samples_def s0_def [symmetric] Let_def then_do_def
    using e1 e2' e3' e4
    by (simp add: l1_def [symmetric] r1_def [symmetric] s1_def [symmetric] s4_def [symmetric])
       (simp add: l3_def)
  have log: "fetch_log s4 = fetch_log s @ att3 @ att4"
    by (simp add: s4_def s3_def)
  show ?thesis
  proof (rule that [OF total log d1 m1 _ k1 r1_def k2 d2 m2 _ _ r2_def k3 d3 _ _ _ _ _ r3_def k4 d4 m4'])
    show "\<not> sh \<longrightarrow> t1 = set_intersection rt (set_of_list rt (dict_keys all_s)) (set_of_list rt prev)"
      using o1 by blast
    show "r1 = Some 0 \<longrightarrow> add2 = []" using z2 by (simp add: l1_def)
    show "r1 \<noteq> Some 0 \<longrightarrow> (\<exists>t2. distinct t2 \<and> set t2 = ?B \<inter> ?P \<and> add2 = slice_to t2 r1)"
      using t2 by blast
    show "set (map fst att3) \<subseteq> ?A - ?P" using m3 AP by (simp add: l2_def)
    show "r2 = Some 0 \<longrightarrow> att3 = []" using z3 by (simp add: l2_def)
    show "r2 = None \<longrightarrow> set (map fst att3) = ?A - ?P" using n3 AP by (simp add: l2_def)
    show "\<forall>n. r2 = Some n \<longrightarrow> 0 < n \<longrightarrow> int (length (filter snd att3)) \<le> n"
      using c3 by (simp add: l2_def)
    show "always_fails rt \<longrightarrow> filter snd att3 = [] \<and>
            (r2 \<noteq> Some 0 \<longrightarrow> set (map fst att3) = ?A - ?P)"
      using f3 AP by (simp add: l2_def)
    show "r3 = Some 0 \<longrightarrow> att4 = []" using z4 by (simp add: l3_def)
    show "r3 = None \<longrightarrow> set (map fst att4) = ?B - ?P" using n4 BP by (simp add: l3_def)
    show "\<forall>n. r3 = Some n \<longrightarrow> 0 < n \<longrightarrow> int (length (filter snd att4)) \<le> n"
      using c4 by (simp add: l3_def)
    show "always_fails rt \<longrightarrow> filter snd att4 = [] \<and>
            (r3 \<noteq> Some 0 \<longrightarrow> set (map fst att4) = ?B - ?P)"
      using f4 BP by (simp add: l3_def)
  qed
qed


lemma planner_never_raises:
  assumes ok: "runtime_ok rt"
  shows "\<exists>sel n s'.
           downloaded_necessary_samples rt vd all_s any_s prev ms seed sh s =
             (Inr (sel, n), s') \<and>
           distinct (dict_keys sel) \<and>
           set (dict_keys sel) \<subseteq> set (dict_keys all_s) \<union> set (dict_keys any_s) \<and>
           length sel \<le> card (set (dict_keys all_s) \<union> set (dict_keys any_s)) \<and>
           (all_s = [] \<and> any_s = [] \<longrightarrow> sel = [] \<and> n = 0 \<and> fetch_log s' = fetch_log s)"
proof (rule downloaded_necessary_samples_run [OF ok, of vd all_s any_s prev ms seed sh s])
  fix t1 new1 r1 add2 new2 r2 att3 new3 r3 att4 new4 s'
  let ?A = "set (dict_keys all_s)" and ?B = "set (dict_keys any_s)"
  assume run: "downloaded_necessary_samples rt vd all_s any_s prev ms seed sh s =
       (Inr (dict_update (dict_update (dict_update new1 new2) new3) new4,
             length (filter snd att3) + length (filter snd att4)), s')"
    and log: "fetch_log s' = fetch_log s @ att3 @ att4"
    and d1: "distinct t1" and m1: "set t1 = ?A \<inter> set prev"
    and k1: "dict_keys new1 = slice_to t1 ms"
    and k2: "dict_keys new2 = add2" and m2: "set add2 \<subseteq> ?B \<inter> set prev"
    and k3: "dict_keys new3 = map fst (filter snd att3)"
    and m3: "set (map fst att3) \<subseteq> ?A - set prev"
    and k4: "dict_keys new4 = map fst (filter snd att4)"
    and m4: "set (map fst att4) \<subseteq> ?B - set prev"
  let ?sel = "dict_update (dict_update (dict_update new1 new2) new3) new4"
  have "distinct (dict_keys new1)" using d1 k1 by (simp add: distinct_slice_to)
  then have dist: "distinct (dict_keys ?sel)" by (intro distinct_dict_keys_update)
  have s1: "set (dict_keys new1) \<subseteq> ?A" using k1 m1 set_slice_to [of t1 ms] by auto
  have s2: "set (dict_keys new2) \<subseteq> ?B" using k2 m2 by auto
  have s3: "set (dict_keys new3) \<subseteq> ?A" using k3 m3 by auto
  have s4: "set (dict_keys new4) \<subseteq> ?B" using k4 m4 by auto
  have sub: "set (dict_keys ?sel) \<subseteq> ?A \<union> ?B"
    using s1 s2 s3 s4 by (simp only: set_dict_keys_selected) blast
  have "length ?sel = card (set (dict_keys ?sel))"
    using distinct_card [OF dist] by simp
  also have "\<dots> \<le> card (?A \<union> ?B)" using sub by (intro card_mono) simp_all
  finally have len: "length ?sel \<le> card (?A \<union> ?B)" .
  have empty: "all_s = [] \<and> any_s = [] \<longrightarrow>
      ?sel = [] \<and> length (filter snd att3) + length (filter snd att4) = 0 \<and>
      fetch_log s' = fetch_log s"
  proof
    assume e: "all_s = [] \<and> any_s = []"
    then have "set (dict_keys ?sel) = {}" using sub by simp
    then have a: "?sel = []" by (simp add: dict_keys_def)
    have "att3 = []" "att4 = []" using e m3 m4 by simp_all
    then show "?sel = [] \<and> length (filter snd att3) + length (filter snd att4) = 0 \<and>
      fetch_log s' = fetch_log s" using a log by simp
  qed
  show ?thesis using run dist sub len empty by blast
qed

section \<open>What the selection depends on\<close>

lemma then_do_rng:
  assumes "m (s\<lparr>rng := g\<rparr>) = (case m s of (r, s') \<Rightarrow> (r, s'\<lparr>rng := g\<rparr>))"
    and "\<And>a s. f a (s\<lparr>rng := g\<rparr>) = (case f a s of (r, s') \<Rightarrow> (r, s'\<lparr>rng := g\<rparr>))"
  shows "then_do m f (s\<lparr>rng := g\<rparr>) = (case then_do m f s of (r, s') \<Rightarrow> (r, s'\<lparr>rng := g\<rparr>))"
proof (cases "m s")
  case (Pair r s1)
  then show ?thesis by (cases r) (simp_all add: then_do_def assms)
qed

lemma take_downloaded_all_class_rng:
  "take_downloaded_all_class rt all_s prev ms False (s\<lparr>rng := g\<rparr>) =
     (case take_downloaded_all_class rt all_s prev ms False s of (r, s') \<Rightarrow> (r, s'\<lparr>rng := g\<rparr>))"
  by (simp add: take_downloaded_all_class_def shuffle_if_def Let_def split: sum.splits)

lemma take_downloaded_any_class_rng:
  "take_downloaded_any_class rt any_s prev False l (s\<lparr>rng := g\<rparr>) =
     (case take_downloaded_any_class rt any_s prev False l s of (r, s') \<Rightarrow> (r, s'\<lparr>rng := g\<rparr>))"
  by (simp add: take_downloaded_any_class_def shuffle_if_def Let_def split: sum.splits)

lemma download_all_class_rng:
  "download_all_class rt vd all_s False l (s\<lparr>rng := g\<rparr>) =
     (case download_all_class rt vd all_s False l s of (r, s') \<Rightarrow> (r, s'\<lparr>rng := g\<rparr>))"
proof (cases "requested_num l = None \<or> truthy (requested_num l)")
  case True
  let ?ids = "set_difference rt (set_of_list rt (dict_keys all_s)) (set_of_list rt (dl_all_class_ids l))"
  obtain r s1 where a: "attempt_to_download rt vd ?ids all_s (requested_num l) s = (r, s1)"
    by (cases "attempt_to_download rt vd ?ids all_s (requested_num l) s")
  then have a': "attempt_to_download rt vd ?ids all_s (requested_num l) (s\<lparr>rng := g\<rparr>) =
      (r, s1\<lparr>rng := g\<rparr>)"
    by (simp add: attempt_to_download_rng)
  have "download_all_class rt vd all_s False l t =
      (case attempt_to_download rt vd ?ids all_s (requested_num l) t of
         (Inl e, s2) \<Rightarrow> (Inl e, s2)
       | (Inr downloaded_ids, s2) \<Rightarrow>
           (case dict_comp all_s downloaded_ids of
              Inl e \<Rightarrow> (Inl e, s2)
            | Inr new \<Rightarrow>
                (Inr (l\<lparr>num_downloaded_samples :=
                          num_downloaded_samples l + length downloaded_ids,
                        requested_samples := dict_update (requested_samples l) new,
                        requested_num :=
                          decrement_if_truthy (requested_num l) (length downloaded_ids)\<rparr>), s2)))"
    for t :: "('a, 'b) env"
    using True by (simp only: download_all_class_def if_True Let_def shuffle_if_def if_False
        prod.case)
  then show ?thesis using a a' by (simp split: sum.splits)
next
  case False
  have "download_all_class rt vd all_s False l t = (Inr l, t)" for t :: "('a, 'b) env"
    using False by (simp only: download_all_class_def if_False)
  then show ?thesis by simp
qed

lemma download_any_class_rng:
  "download_any_class rt vd any_s False l (s\<lparr>rng := g\<rparr>) =
     (case download_any_class rt vd any_s False l s of (r, s') \<Rightarrow> (r, s'\<lparr>rng := g\<rparr>))"
proof (cases "requested_num l = None \<or> truthy (requested_num l)")
  case True
  show ?thesis
  proof (cases "dl_any_class_ids l")
    case None
    have "download_any_class rt vd any_s False l t = (Inl UnboundLocalError, t)"
      for t :: "('a, 'b) env"
      using True None by (simp only: download_any_class_def if_True option.case)
    then show ?thesis by simp
  next
    case (Some dl_any)
    let ?ids = "set_difference rt (set_of_list rt (dict_keys any_s)) (set_of_list rt dl_any)"
    obtain r s1 where a: "attempt_to_download rt vd ?ids any_s (requested_num l) s = (r, s1)"
      by (cases "attempt_to_download rt vd ?ids any_s (requested_num l) s")
    then have a': "attempt_to_download rt vd ?ids any_s (requested_num l) (s\<lparr>rng := g\<rparr>) =
        (r, s1\<lparr>rng := g\<rparr>)"
      by (simp add: attempt_to_download_rng)
    have "download_any_class rt vd any_s False l t =
      (case attempt_to_download rt vd ?ids any_s (requested_num l) t of
         (Inl e, s2) \<Rightarrow> (Inl e, s2)
       | (Inr downloaded_ids, s2) \<Rightarrow>
           (case dict_comp any_s downloaded_ids of
              Inl e \<Rightarrow> (Inl e, s2)
            | Inr new \<Rightarrow>
                (Inr (l\<lparr>num_downloaded_samples :=
                          num_downloaded_samples l + length downloaded_ids,
                        requested_samples := dict_update (requested_samples l) new\<rparr>), s2)))"
      for t :: "('a, 'b) env"
      using True Some by (simp only: download_any_class_def if_True Let_def shuffle_if_def
          if_False prod.case option.case)
    then show ?thesis using a a' by (simp split: sum.splits)
  qed
next
  case False
  have "download_any_class rt vd any_s False l t = (Inr l, t)" for t :: "('a, 'b) env"
    using False by (simp only: download_any_class_def if_False)
  then show ?thesis by simp
qed

lemma downloaded_necessary_samples_rng:
  "downloaded_necessary_samples rt vd all_s any_s prev ms seed False (s\<lparr>rng := g\<rparr>) =
     (case downloaded_necessary_samples rt vd all_s any_s prev ms seed' False s of
        (r, s') \<Rightarrow> (r, s'\<lparr>rng := g\<rparr>))"
  unfolding downloaded_necessary_samples_def Let_def if_False
  by (intro then_do_rng take_downloaded_all_class_rng take_downloaded_any_class_rng
      download_all_class_rng download_any_class_rng) simp

lemma downloaded_necessary_samples_seeded:
  "downloaded_necessary_samples rt vd all_s any_s prev ms (Some sd) True (s\<lparr>rng := g\<rparr>) =
   downloaded_necessary_samples rt vd all_s any_s prev ms (Some sd) True s"
  by (simp add: downloaded_necessary_samples_def)

lemma planner_determinism:
  "downloaded_necessary_samples rt vd all_s any_s prev ms (Some sd) True (s\<lparr>rng := g\<rparr>) =
   downloaded_necessary_samples rt vd all_s any_s prev ms (Some sd) True s \<and>
   downloaded_necessary_samples rt vd all_s any_s prev ms seed False (s\<lparr>rng := g\<rparr>) =
   (case downloaded_necessary_samples rt vd all_s any_s prev ms seed' False s of
      (res, s') \<Rightarrow> (res, s'\<lparr>rng := g\<rparr>))"
  by (rule conjI [OF downloaded_necessary_samples_seeded downloaded_necessary_samples_rng])

lemma planner_order:
  assumes ok: "runtime_ok rt"
  shows "\<exists>sel n s' rest.
           downloaded_necessary_samples rt vd all_s any_s prev ms seed False s =
             (Inr (sel, n), s') \<and>
           dict_keys sel =
             slice_to (set_intersection rt (set_of_list rt (dict_keys all_s))
                         (set_of_list rt prev)) ms @ rest"
proof (rule downloaded_necessary_samples_run [OF ok, of vd all_s any_s prev ms seed False s])
  fix t1 new1 r1 add2 new2 r2 att3 new3 r3 att4 new4 s'
  assume run: "downloaded_necessary_samples rt vd all_s any_s prev ms seed False s =
       (Inr (dict_update (dict_update (dict_update new1 new2) new3) new4,
             length (filter snd att3) + length (filter snd att4)), s')"
    and o1: "\<not> False \<longrightarrow>
       t1 = set_intersection rt (set_of_list rt (dict_keys all_s)) (set_of_list rt prev)"
    and k1: "dict_keys new1 = slice_to t1 ms"
  from dict_keys_selected_prefix [of new1 new2 new3 new4]
  obtain rest where
    "dict_keys (dict_update (dict_update (dict_update new1 new2) new3) new4) =
       dict_keys new1 @ rest"
    by (elim exE conjE)
  then have "dict_keys (dict_update (dict_update (dict_update new1 new2) new3) new4) =
       slice_to (set_intersection rt (set_of_list rt (dict_keys all_s))
                   (set_of_list rt prev)) ms @ rest"
    using k1 o1 by simp
  then show ?thesis using run by blast
qed

section \<open>The downloaded ids and the class matching\<close>





lemma get_matching_samples_train:
  "get_matching_samples raw classes ''train'' = Inl KeyError"
  by (simp add: get_matching_samples_def dict_getitem_def SPLIT_MAP_def)

section \<open>The id list of the Open Images loader\<close>

text \<open>
  The Open Images loader has no tiers: it cuts the shuffled id list to a positive
  \<open>max_samples\<close>, treats \<open>max_samples = 0\<close> like \<^verbatim>\<open>None\<close>, always shuffles with the
  generator as it finds it, and raises when no id is left.
\<close>

lemma load_open_images_split_valid_ids_positive:
  assumes "0 < cap"
  shows "load_open_images_split_valid_ids rt valid_ids (Some cap) s =
          (case random_shuffle rt valid_ids (rng s) of
             (shuffled, r) \<Rightarrow>
               (if take (nat cap) shuffled = [] then Inl ValueError
                else Inr (take (nat cap) shuffled), s\<lparr>rng := r\<rparr>))"
  using assms
  by (simp add: load_open_images_split_valid_ids_def truthy_def slice_to_nonneg
      split: prod.splits)


lemma load_open_images_split_valid_ids_zero:
  "load_open_images_split_valid_ids rt valid_ids (Some 0) s =
     (if valid_ids = [] then (Inl ValueError, s) else (Inr valid_ids, s))"
  by (simp add: load_open_images_split_valid_ids_def truthy_def)

lemma load_open_images_split_valid_ids_empty:
  assumes ok: "runtime_ok rt"
  shows "fst (load_open_images_split_valid_ids rt [] ms s) = Inl ValueError"
proof -
  obtain shuffled r where sh: "random_shuffle rt [] (rng s) = (shuffled, r)"
    by (cases "random_shuffle rt [] (rng s)")
  have "mset (fst (random_shuffle rt [] (rng s))) = mset []"
    using ok unfolding runtime_ok_def by blast
  then have "shuffled = []" using sh by simp
  then have "slice_to shuffled ms = []" by (cases ms) (simp_all add: slice_to_def)
  then show ?thesis using sh
    by (simp add: load_open_images_split_valid_ids_def)
qed

lemma load_open_images_split_valid_ids_nonempty:
  assumes ok: "runtime_ok rt" and ne: "valid_ids \<noteq> []"
    and cap: "\<forall>c. ms = Some c \<longrightarrow> 0 \<le> c"
  shows "\<exists>ids s'. load_open_images_split_valid_ids rt valid_ids ms s = (Inr ids, s') \<and>
                 ids \<noteq> [] \<and> set ids \<subseteq> set valid_ids"
proof (cases "truthy ms")
  case True
  then obtain c where c: "ms = Some c" "c \<noteq> 0" by (cases ms) (auto simp: truthy_def)
  then have pos: "0 < c" using cap by force
  obtain shuffled r where sh: "random_shuffle rt valid_ids (rng s) = (shuffled, r)"
    by (cases "random_shuffle rt valid_ids (rng s)")
  have "mset (fst (random_shuffle rt valid_ids (rng s))) = mset valid_ids"
    using ok unfolding runtime_ok_def by blast
  then have "mset shuffled = mset valid_ids" using sh by simp
  then have m: "set shuffled = set valid_ids" by (rule mset_eq_setD)
  then have "shuffled \<noteq> []" using ne by auto
  then have tne: "take (nat c) shuffled \<noteq> []" using pos by (cases shuffled) simp_all
  have "load_open_images_split_valid_ids rt valid_ids ms s =
          (Inr (take (nat c) shuffled), s\<lparr>rng := r\<rparr>)"
    using c sh tne by (simp add: load_open_images_split_valid_ids_positive [OF pos])
  moreover have "set (take (nat c) shuffled) \<subseteq> set valid_ids"
    using m set_take_subset [of "nat c" shuffled] by simp
  ultimately show ?thesis using tne by blast
next
  case False
  then have "load_open_images_split_valid_ids rt valid_ids ms s = (Inr valid_ids, s)"
    using ne by (simp add: load_open_images_split_valid_ids_def)
  then show ?thesis using ne by blast
qed

section \<open>The examples\<close>

lemma example_runtime_ok: "runtime_ok example_runtime"
  by (simp add: runtime_ok_def example_runtime_def)


lemma failing_runtime_always_fails: "always_fails failing_runtime"
  by (simp add: always_fails_def failing_runtime_def)

lemmas selection_defs =
  downloaded_necessary_samples_def then_do_def take_downloaded_all_class_def
  take_downloaded_any_class_def download_all_class_def download_any_class_def
  shuffle_if_def slice_to_def dict_update_def dict_keys_def dict_getitem_def truthy_def
  decrement_if_truthy_def attempt_to_download_def do_download_def path_join_def
  example_runtime_def failing_runtime_def example_env_def sample_def

lemma get_downloaded_sample_ids_example:
  "get_downloaded_sample_ids [''v_a.mp4'', ''v_b.mp4.part'', ''v_c.mkv'', ''.part''] =
     ([''v_a'', ''v_c'', ''.part''], [''v_a.mp4'', ''v_c.mkv'', ''.part''])"
  by (simp add: get_downloaded_sample_ids_def splitext_def)

lemma get_matching_samples_example:
  "get_matching_samples example_annotations [''Dance'', ''Run''] ''validation'' =
     Inr ([(''v2'', \<lparr>subset_name = ''validation'', url = ''http://v2'',
                    annotations = [\<lparr>label = ''Dance''\<rparr>]\<rparr>)],
          [(''v1'', \<lparr>subset_name = ''validation'', url = ''http://v1'',
                    annotations = [\<lparr>label = ''Dance''\<rparr>, \<lparr>label = ''Run''\<rparr>]\<rparr>)])"
  by (simp add: get_matching_samples_def dict_getitem_def SPLIT_MAP_def example_annotations_def)

section \<open>The properties of the specification\<close>




text \<open>
  C2 (negative cap). The claim fails: with \<open>max_samples = -1\<close>, two downloaded all-class
  ids and one that is not downloaded, the selection raises nothing. Step 1 takes all but
  the last downloaded id, step 3 downloads the third id, and the plan holds two records.
\<close>

theorem negative_cap_counterexample:
  "downloaded_necessary_samples example_runtime ''videos''
     [(''a'', sample ''http://a''), (''b'', sample ''http://b''), (''c'', sample ''http://c'')] []
     [''a'', ''b''] (Some (- 1)) None False example_env =
   (Inr ([(''a'', sample ''http://a''), (''c'', sample ''http://c'')], 1),
    example_env\<lparr>fetch_log := [(''c'', True)]\<rparr>)"
  by (simp add: selection_defs)

text \<open>
  C2 as amended. A negative cap is not rejected: for every input the selection returns a
  plan. The slice of step 1 drops the last \<open>-cap\<close> downloaded all-class ids, and the
  plan starts with the ids that are left.
\<close>

theorem negative_cap_is_not_rejected:
  assumes ok: "runtime_ok rt" and cap: "cap < 0"
  shows "\<exists>sel n s' t1 rest.
           downloaded_necessary_samples rt vd all_s any_s prev (Some cap) seed sh s =
             (Inr (sel, n), s') \<and>
           distinct t1 \<and> set t1 = set (dict_keys all_s) \<inter> set prev \<and>
           dict_keys sel = take (length t1 - nat (- cap)) t1 @ rest"
proof (rule downloaded_necessary_samples_run [OF ok, of vd all_s any_s prev "Some cap" seed sh s])
  fix t1 new1 r1 add2 new2 r2 att3 new3 r3 att4 new4 s'
  assume run: "downloaded_necessary_samples rt vd all_s any_s prev (Some cap) seed sh s =
       (Inr (dict_update (dict_update (dict_update new1 new2) new3) new4,
             length (filter snd att3) + length (filter snd att4)), s')"
    and d1: "distinct t1" and m1: "set t1 = set (dict_keys all_s) \<inter> set prev"
    and k1: "dict_keys new1 = slice_to t1 (Some cap)"
  from dict_keys_selected_prefix [of new1 new2 new3 new4]
  obtain rest where
    "dict_keys (dict_update (dict_update (dict_update new1 new2) new3) new4) =
       dict_keys new1 @ rest"
    by (elim exE conjE)
  then have "dict_keys (dict_update (dict_update (dict_update new1 new2) new3) new4) =
       take (length t1 - nat (- cap)) t1 @ rest"
    using k1 cap by (simp add: slice_to_negative)
  then show ?thesis using run d1 m1 by blast
qed

theorem negative_cap_is_not_rejected_witness:
  "\<exists>sel n s' t1 rest.
     downloaded_necessary_samples example_runtime ''videos''
       [(''a'', sample ''http://a''), (''b'', sample ''http://b''), (''c'', sample ''http://c'')] []
       [''a'', ''b''] (Some (- 1)) None False example_env = (Inr (sel, n), s') \<and>
     distinct t1 \<and>
     set t1 = set (dict_keys [(''a'', sample ''http://a''), (''b'', sample ''http://b''),
                              (''c'', sample ''http://c'')]) \<inter> set [''a'', ''b''] \<and>
     dict_keys sel = take (length t1 - nat (- (- 1))) t1 @ rest"
proof -
  have z: "(- 1 :: int) < 0" by simp
  show ?thesis by (rule negative_cap_is_not_rejected [OF example_runtime_ok z])
qed

text \<open>
  C3 (tier priority). Under a non-negative cap the plan starts with the downloaded
  all-class ids, in their step-1 order, up to the cap. When the cap is no larger than
  their number the plan is exactly these ids and no download is attempted. Whenever the
  plan holds anything else, or a download was attempted, every downloaded all-class id
  is in the plan.
\<close>

theorem tier_priority:
  assumes ok: "runtime_ok rt" and cap: "0 \<le> cap"
  shows "\<exists>sel n s' t1 rest.
           downloaded_necessary_samples rt vd all_s any_s prev (Some cap) seed sh s =
             (Inr (sel, n), s') \<and>
           distinct t1 \<and> set t1 = set (dict_keys all_s) \<inter> set prev \<and>
           dict_keys sel = take (nat cap) t1 @ rest \<and>
           (cap \<le> int (card (set (dict_keys all_s) \<inter> set prev)) \<longrightarrow>
              rest = [] \<and> n = 0 \<and> fetch_log s' = fetch_log s) \<and>
           (rest \<noteq> [] \<or> fetch_log s' \<noteq> fetch_log s \<longrightarrow>
              set (dict_keys all_s) \<inter> set prev \<subseteq> set (dict_keys sel))"
proof (rule downloaded_necessary_samples_run [OF ok, of vd all_s any_s prev "Some cap" seed sh s])
  fix t1 new1 r1 add2 new2 r2 att3 new3 r3 att4 new4 s'
  assume run: "downloaded_necessary_samples rt vd all_s any_s prev (Some cap) seed sh s =
       (Inr (dict_update (dict_update (dict_update new1 new2) new3) new4,
             length (filter snd att3) + length (filter snd att4)), s')"
    and log: "fetch_log s' = fetch_log s @ att3 @ att4"
    and d1: "distinct t1" and m1: "set t1 = set (dict_keys all_s) \<inter> set prev"
    and k1: "dict_keys new1 = slice_to t1 (Some cap)"
    and r1: "r1 = decrement_if_truthy (Some cap) (length (slice_to t1 (Some cap)))"
    and k2: "dict_keys new2 = add2"
    and z2: "r1 = Some 0 \<longrightarrow> add2 = []"
    and r2: "r2 = decrement_if_truthy r1 (length add2)"
    and k3: "dict_keys new3 = map fst (filter snd att3)"
    and z3: "r2 = Some 0 \<longrightarrow> att3 = []"
    and r3: "r3 = decrement_if_truthy r2 (length (filter snd att3))"
    and k4: "dict_keys new4 = map fst (filter snd att4)"
    and z4: "r3 = Some 0 \<longrightarrow> att4 = []"
  let ?sel = "dict_update (dict_update (dict_update new1 new2) new3) new4"
  have len: "length t1 = card (set (dict_keys all_s) \<inter> set prev)"
    using distinct_card [OF d1] m1 by simp
  have k1': "dict_keys new1 = take (nat cap) t1" using k1 cap by (simp add: slice_to_nonneg)
  from dict_keys_selected_prefix [of new1 new2 new3 new4]
  obtain rest where p: "dict_keys ?sel = dict_keys new1 @ rest"
    and e: "dict_keys new2 = [] \<and> dict_keys new3 = [] \<and> dict_keys new4 = [] \<longrightarrow> rest = []"
    by (elim exE conjE)
  have tight: "cap \<le> int (length t1) \<longrightarrow>
      rest = [] \<and> length (filter snd att3) + length (filter snd att4) = 0 \<and>
      fetch_log s' = fetch_log s"
  proof
    assume c: "cap \<le> int (length t1)"
    then have "length (slice_to t1 (Some cap)) = nat cap" using cap by (simp add: slice_to_nonneg)
    then have "r1 = Some 0" using r1 cap by (simp add: decrement_if_truthy_nonneg)
    then have a2: "add2 = []" and "r2 = Some 0" using z2 r2 by simp_all
    then have a3: "att3 = []" and "r3 = Some 0" using z3 r3 by simp_all
    then have a4: "att4 = []" using z4 by simp
    have "rest = []" using e k2 k3 k4 a2 a3 a4 by simp
    then show "rest = [] \<and> length (filter snd att3) + length (filter snd att4) = 0 \<and>
      fetch_log s' = fetch_log s" using a3 a4 log by simp
  qed
  have more: "rest \<noteq> [] \<or> fetch_log s' \<noteq> fetch_log s \<longrightarrow>
      set (dict_keys all_s) \<inter> set prev \<subseteq> set (dict_keys ?sel)"
  proof
    assume "rest \<noteq> [] \<or> fetch_log s' \<noteq> fetch_log s"
    then have "\<not> cap \<le> int (length t1)" using tight by blast
    then have "take (nat cap) t1 = t1" by simp
    then have "set t1 \<subseteq> set (dict_keys ?sel)" using p k1' by simp
    then show "set (dict_keys all_s) \<inter> set prev \<subseteq> set (dict_keys ?sel)" using m1 by simp
  qed
  have p': "dict_keys ?sel = take (nat cap) t1 @ rest" using p k1' by simp
  show ?thesis using run d1 m1 p' tight more unfolding len by blast
qed

theorem tier_priority_witness:
  "\<exists>sel n s' t1 rest.
     downloaded_necessary_samples example_runtime ''videos''
       [(''x'', sample ''http://x''), (''y'', sample ''http://y''), (''z'', sample ''http://z'')]
       [(''a'', sample ''http://a''), (''b'', sample ''http://b'')]
       [''a'', ''x'', ''y''] (Some 2) None False example_env = (Inr (sel, n), s') \<and>
     distinct t1 \<and> set t1 = {''x'', ''y''} \<and>
     dict_keys sel = take 2 t1 @ rest \<and>
     rest = [] \<and> n = 0 \<and> fetch_log s' = fetch_log example_env"
proof -
  let ?all = "[(''x'', sample ''http://x''), (''y'', sample ''http://y''),
               (''z'', sample ''http://z'')]"
  let ?any = "[(''a'', sample ''http://a''), (''b'', sample ''http://b'')]"
  let ?prev = "[''a'', ''x'', ''y'']"
  have i: "set (dict_keys ?all) \<inter> set ?prev = {''x'', ''y''}"
    by auto
  have c: "(2::int) \<le> int (card (set (dict_keys ?all) \<inter> set ?prev))"
    unfolding i by simp
  have z: "(0::int) \<le> 2" by simp
  from tier_priority [OF example_runtime_ok z, of "''videos''" ?all ?any ?prev None False
      example_env]
  obtain sel n s' t1 rest where
    a1: "downloaded_necessary_samples example_runtime ''videos'' ?all ?any ?prev (Some 2) None
           False example_env = (Inr (sel, n), s')"
    and a2: "distinct t1" and a3: "set t1 = set (dict_keys ?all) \<inter> set ?prev"
    and a4: "dict_keys sel = take (nat 2) t1 @ rest"
    and a5: "2 \<le> int (card (set (dict_keys ?all) \<inter> set ?prev)) \<longrightarrow>
              rest = [] \<and> n = 0 \<and> fetch_log s' = fetch_log example_env"
    by (elim exE conjE)
  have a6: "rest = [] \<and> n = 0 \<and> fetch_log s' = fetch_log example_env" using a5 c by blast
  have a7: "dict_keys sel = take 2 t1 @ rest" using a4 by simp
  have a8: "set t1 = {''x'', ''y''}" using a3 i by simp
  show ?thesis using a1 a2 a8 a7 a6 by blast
qed





text \<open>
  C6 (deterministic order). The claim fails: the order inside a tier is the order in
  which the interpreter iterates over a set of candidate ids, not the insertion order of
  the mapping. Where sets iterate in sorted order, the dict with the keys \<open>b\<close>, \<open>a\<close> (in
  this order, both downloaded) and cap 1 gives the plan \<open>a\<close>, while the first key of the
  mapping that is downloaded is \<open>b\<close>.
\<close>

theorem insertion_order_counterexample:
  "downloaded_necessary_samples example_runtime ''videos''
     [(''b'', sample ''http://b''), (''a'', sample ''http://a'')] []
     [''b'', ''a''] (Some 1) None False example_env =
   (Inr ([(''a'', sample ''http://a'')], 0), example_env) \<and>
   take 1 (filter (\<lambda>i. i \<in> set [''b'', ''a''])
             (dict_keys [(''b'', sample ''http://b''), (''a'', sample ''http://a'')])) = [''b'']"
  by (simp add: selection_defs)

text \<open>
  C6 as amended. With \<open>shuffle\<close> and an explicit seed the result of the selection does
  not depend on the state the generator was in before the call; without \<open>shuffle\<close>
  neither the generator nor the seed is used, and the generator is left as it was.
  Without \<open>shuffle\<close> the plan starts with the downloaded all-class ids in the order in
  which the runtime iterates over the intersection of the two id sets, cut to the cap.
  The Open Images loader has no \<open>shuffle\<close> or \<open>seed\<close>: under a positive cap its id
  list is the shuffle of the id set by the generator as the call finds it, cut to the cap.
\<close>

theorem selection_determinism:
  assumes ok: "runtime_ok rt"
  shows "downloaded_necessary_samples rt vd all_s any_s prev ms (Some sd) True (s\<lparr>rng := g\<rparr>) =
         downloaded_necessary_samples rt vd all_s any_s prev ms (Some sd) True s \<and>
         downloaded_necessary_samples rt vd all_s any_s prev ms seed False (s\<lparr>rng := g\<rparr>) =
         (case downloaded_necessary_samples rt vd all_s any_s prev ms seed' False s of
            (res, s') \<Rightarrow> (res, s'\<lparr>rng := g\<rparr>)) \<and>
         (\<exists>sel n s' rest.
            downloaded_necessary_samples rt vd all_s any_s prev ms seed False s =
              (Inr (sel, n), s') \<and>
            dict_keys sel =
              slice_to (set_intersection rt (set_of_list rt (dict_keys all_s))
                          (set_of_list rt prev)) ms @ rest) \<and>
         (0 < cap \<longrightarrow>
            load_open_images_split_valid_ids rt valid_ids (Some cap) s =
              (case random_shuffle rt valid_ids (rng s) of
                 (shuffled, r) \<Rightarrow>
                   (if take (nat cap) shuffled = [] then Inl ValueError
                    else Inr (take (nat cap) shuffled), s\<lparr>rng := r\<rparr>)))"
proof (intro conjI impI)
  show "downloaded_necessary_samples rt vd all_s any_s prev ms (Some sd) True (s\<lparr>rng := g\<rparr>) =
        downloaded_necessary_samples rt vd all_s any_s prev ms (Some sd) True s"
    using planner_determinism by (rule conjunct1)
  show "downloaded_necessary_samples rt vd all_s any_s prev ms seed False (s\<lparr>rng := g\<rparr>) =
        (case downloaded_necessary_samples rt vd all_s any_s prev ms seed' False s of
           (res, s') \<Rightarrow> (res, s'\<lparr>rng := g\<rparr>))"
    using planner_determinism by (rule conjunct2)
  show "\<exists>sel n s' rest.
            downloaded_necessary_samples rt vd all_s any_s prev ms seed False s =
              (Inr (sel, n), s') \<and>
            dict_keys sel =
              slice_to (set_intersection rt (set_of_list rt (dict_keys all_s))
                          (set_of_list rt prev)) ms @ rest"
    using ok by (rule planner_order)
  assume "0 < cap"
  then show "load_open_images_split_valid_ids rt valid_ids (Some cap) s =
              (case random_shuffle rt valid_ids (rng s) of
                 (shuffled, r) \<Rightarrow>
                   (if take (nat cap) shuffled = [] then Inl ValueError
                    else Inr (take (nat cap) shuffled), s\<lparr>rng := r\<rparr>))"
    by (rule load_open_images_split_valid_ids_positive)
qed

theorem selection_determinism_witness:
  "downloaded_necessary_samples example_runtime ''videos''
     [(''b'', sample ''http://b''), (''a'', sample ''http://a'')]
     [(''d'', sample ''http://d''), (''c'', sample ''http://c'')]
     [''b'', ''a'', ''c''] (Some 2) (Some 7) True (example_env\<lparr>rng := 5\<rparr>) =
   downloaded_necessary_samples example_runtime ''videos''
     [(''b'', sample ''http://b''), (''a'', sample ''http://a'')]
     [(''d'', sample ''http://d''), (''c'', sample ''http://c'')]
     [''b'', ''a'', ''c''] (Some 2) (Some 7) True example_env \<and>
   downloaded_necessary_samples example_runtime ''videos''
     [(''b'', sample ''http://b''), (''a'', sample ''http://a'')]
     [(''d'', sample ''http://d''), (''c'', sample ''http://c'')]
     [''b'', ''a'', ''c''] (Some 2) None False (example_env\<lparr>rng := 5\<rparr>) =
   (case downloaded_necessary_samples example_runtime ''videos''
           [(''b'', sample ''http://b''), (''a'', sample ''http://a'')]
           [(''d'', sample ''http://d''), (''c'', sample ''http://c'')]
           [''b'', ''a'', ''c''] (Some 2) (Some 3) False example_env of
      (res, s') \<Rightarrow> (res, s'\<lparr>rng := 5\<rparr>)) \<and>
   load_open_images_split_valid_ids example_runtime [''a'', ''b'', ''c''] (Some 2) example_env =
     (Inr [''c'', ''b''], example_env\<lparr>rng := 1\<rparr>)"
proof -
  have e: "(case random_shuffle example_runtime [''a'', ''b'', ''c''] (rng example_env) of
              (shuffled, r) \<Rightarrow>
                (if take (nat 2) shuffled = [] then Inl ValueError
                 else Inr (take (nat 2) shuffled), example_env\<lparr>rng := r\<rparr>)) =
           (Inr [''c'', ''b''], example_env\<lparr>rng := 1\<rparr>)"
    by (simp add: example_runtime_def example_env_def)
  have z: "(0::int) < 2" by simp
  from selection_determinism [OF example_runtime_ok, where vd = "''videos''"
      and all_s = "[(''b'', sample ''http://b''), (''a'', sample ''http://a'')]"
      and any_s = "[(''d'', sample ''http://d''), (''c'', sample ''http://c'')]"
      and prev = "[''b'', ''a'', ''c'']"
      and ms = "Some 2" and sd = 7 and s = example_env and g = 5 and seed = None
      and seed' = "Some 3" and cap = 2 and valid_ids = "[''a'', ''b'', ''c'']"]
  show ?thesis using z unfolding e by simp
qed



text \<open>
  C8 (running out of candidates is not an error). The claim fails for the Open Images
  id list: with no valid id the loader raises \<^verbatim>\<open>ValueError("No samples found")\<close>.
\<close>

theorem open_images_empty_counterexample:
  "load_open_images_split_valid_ids example_runtime [] (Some 3) example_env =
     (Inl ValueError, example_env\<lparr>rng := 1\<rparr>)"
  by (simp add: load_open_images_split_valid_ids_def truthy_def example_runtime_def
      example_env_def slice_to_def)

text \<open>
  C8 as amended. For every input, with or without a cap, the ActivityNet selection
  returns a plan and raises nothing. The plan holds only candidate ids, each once, so it
  has no more records than there are candidates (fewer than the cap when the cap is
  larger); with no candidates at all the plan is empty and nothing is downloaded. The
  Open Images loader returns a non-empty list of valid ids whenever there is a valid id
  and the cap is absent or not negative, and raises \<^verbatim>\<open>ValueError\<close> when there is no
  valid id.
\<close>

theorem exhaustion_is_not_an_error:
  assumes ok: "runtime_ok rt"
  shows "(\<exists>sel n s'.
            downloaded_necessary_samples rt vd all_s any_s prev ms seed sh s =
              (Inr (sel, n), s') \<and>
            distinct (dict_keys sel) \<and>
            set (dict_keys sel) \<subseteq> set (dict_keys all_s) \<union> set (dict_keys any_s) \<and>
            length sel \<le> card (set (dict_keys all_s) \<union> set (dict_keys any_s)) \<and>
            (all_s = [] \<and> any_s = [] \<longrightarrow> sel = [] \<and> n = 0 \<and> fetch_log s' = fetch_log s)) \<and>
         (valid_ids \<noteq> [] \<and> (\<forall>c. ms = Some c \<longrightarrow> 0 \<le> c) \<longrightarrow>
            (\<exists>ids s'. load_open_images_split_valid_ids rt valid_ids ms s = (Inr ids, s') \<and>
                      ids \<noteq> [] \<and> set ids \<subseteq> set valid_ids)) \<and>
         fst (load_open_images_split_valid_ids rt [] ms s) = Inl ValueError"
proof (intro conjI)
  show "\<exists>sel n s'.
            downloaded_necessary_samples rt vd all_s any_s prev ms seed sh s =
              (Inr (sel, n), s') \<and>
            distinct (dict_keys sel) \<and>
            set (dict_keys sel) \<subseteq> set (dict_keys all_s) \<union> set (dict_keys any_s) \<and>
            length sel \<le> card (set (dict_keys all_s) \<union> set (dict_keys any_s)) \<and>
            (all_s = [] \<and> any_s = [] \<longrightarrow> sel = [] \<and> n = 0 \<and> fetch_log s' = fetch_log s)"
    using ok by (rule planner_never_raises)
  show "valid_ids \<noteq> [] \<and> (\<forall>c. ms = Some c \<longrightarrow> 0 \<le> c) \<longrightarrow>
            (\<exists>ids s'. load_open_images_split_valid_ids rt valid_ids ms s = (Inr ids, s') \<and>
                      ids \<noteq> [] \<and> set ids \<subseteq> set valid_ids)"
    using load_open_images_split_valid_ids_nonempty [OF ok] by blast
  show "fst (load_open_images_split_valid_ids rt [] ms s) = Inl ValueError"
    using ok by (rule load_open_images_split_valid_ids_empty)
qed

theorem exhaustion_is_not_an_error_witness:
  "(\<exists>sel n s'.
      downloaded_necessary_samples example_runtime ''videos''
        [(''x'', sample [])] [(''a'', sample ''http://a''), (''b'', sample ''http://b'')]
        [''a''] (Some 10) None False example_env = (Inr (sel, n), s') \<and>
      distinct (dict_keys sel) \<and>
      set (dict_keys sel) \<subseteq> {''x'', ''a'', ''b''} \<and>
      length sel \<le> 3) \<and>
   (\<exists>ids s'. load_open_images_split_valid_ids example_runtime [''a'', ''b''] (Some 10)
               example_env = (Inr ids, s') \<and>
             ids \<noteq> [] \<and> set ids \<subseteq> set [''a'', ''b''])"
proof -
  let ?all = "[(''x'', sample [])]"
  let ?any = "[(''a'', sample ''http://a''), (''b'', sample ''http://b'')]"
  have c: "card (set (dict_keys ?all) \<union> set (dict_keys ?any)) = 3" by simp
  have u: "set (dict_keys ?all) \<union> set (dict_keys ?any) = {''x'', ''a'', ''b''}" by auto
  have v: "[''a'', ''b''] \<noteq> ([]::string list) \<and>
           (\<forall>c. Some (10::int) = Some c \<longrightarrow> 0 \<le> c)"
    by simp
  from exhaustion_is_not_an_error [OF example_runtime_ok, of "''videos''" ?all ?any "[''a'']"
      "Some 10" None False example_env "[''a'', ''b'']"]
  obtain sel n s' where
    a1: "downloaded_necessary_samples example_runtime ''videos'' ?all ?any [''a''] (Some 10) None
           False example_env = (Inr (sel, n), s')"
    and a2: "distinct (dict_keys sel)"
    and a3: "set (dict_keys sel) \<subseteq> set (dict_keys ?all) \<union> set (dict_keys ?any)"
    and a4: "length sel \<le> card (set (dict_keys ?all) \<union> set (dict_keys ?any))"
    and b: "[''a'', ''b''] \<noteq> ([]::string list) \<and>
           (\<forall>c. Some (10::int) = Some c \<longrightarrow> 0 \<le> c) \<longrightarrow>
           (\<exists>ids s'. load_open_images_split_valid_ids example_runtime [''a'', ''b''] (Some 10)
               example_env = (Inr ids, s') \<and>
             ids \<noteq> [] \<and> set ids \<subseteq> set [''a'', ''b''])"
    and e: "fst (load_open_images_split_valid_ids example_runtime [] (Some 10) example_env) =
           Inl ValueError"
    by (elim exE conjE)
  have b': "\<exists>ids s'. load_open_images_split_valid_ids example_runtime [''a'', ''b''] (Some 10)
               example_env = (Inr ids, s') \<and>
             ids \<noteq> [] \<and> set ids \<subseteq> set [''a'', ''b'']"
    using b v by blast
  have a3': "set (dict_keys sel) \<subseteq> {''x'', ''a'', ''b''}" using a3 unfolding u .
  have a4': "length sel \<le> 3" using a4 unfolding c .
  show ?thesis using a1 a2 a3' a4' b' by blast
qed




end
